theory Spec2Isabelle
  imports Complex_Main "HOL-Library.AList"
begin

section \<open>JavaScript numbers and values\<close>

text \<open>
  The animation computes with JavaScript numbers, which are doubles. A finite number is
  modelled as a rational, and the result of an addition, a subtraction, a multiplication
  or a division of progress values and of frames in segment construction is rounded to
  the nearest double by \<open>fl\<close> (ties to the even significand). Beside the finite numbers
  stand \<open>+Infinity\<close>, \<open>-Infinity\<close> and \<open>NaN\<close>. The exponent of \<open>fl\<close> is not bounded:
  overflow to an infinity and the subnormal numbers are not modelled, nor is the sign
  of zero (every zero is \<open>+0\<close>). The counters of the clock handler (the frame, the
  delay counter) count whole frames; they are stepped by 1 without rounding, which is
  what doubles do on whole numbers below \<open>2^53\<close>.
\<close>

text \<open>The integer nearest to \<open>x\<close>, the even one of two that are equally near.\<close>

definition round_half_even :: "rat \<Rightarrow> int" where
  "round_half_even x =
     (let f = \<lfloor>x\<rfloor>; r = x - of_int f
      in if r < 1 / 2 then f else if 1 / 2 < r then f + 1 else if even f then f else f + 1)"

text \<open>
  The unit in the last place of a positive \<open>x\<close>: the power of two \<open>u\<close> with
  \<open>2^52 \<le> x / u < 2^53\<close> (\<open>2^52 = 4503599627370496\<close>), found by doubling a small
  \<open>x\<close> and halving a large one.
\<close>

function ulp_up :: "rat \<Rightarrow> rat" where
  "ulp_up x = (if 0 < x \<and> x < 4503599627370496 then ulp_up (2 * x) / 2 else 1)"
  by pat_completeness auto
termination
proof (relation "measure (\<lambda>x. nat \<lceil>4503599627370496 / x\<rceil>)")
  show "wf (measure (\<lambda>x. nat \<lceil>4503599627370496 / x\<rceil>))" by simp
next
  fix x :: rat
  assume a: "0 < x \<and> x < 4503599627370496"
  define c where "c = 4503599627370496 / x"
  from a have c: "1 < c" by (simp add: c_def)
  have "4503599627370496 / (2 * x) = c / 2" by (simp add: c_def)
  moreover have "\<lceil>c / 2\<rceil> < \<lceil>c\<rceil>"
  proof -
    have "c \<le> of_int \<lceil>c\<rceil>" by simp
    moreover from c have "2 \<le> \<lceil>c\<rceil>" by linarith
    then have "(2::rat) \<le> of_int \<lceil>c\<rceil>" by (metis of_int_le_iff of_int_numeral)
    ultimately have "c / 2 \<le> of_int \<lceil>c\<rceil> - 1" by linarith
    then have "c / 2 \<le> of_int (\<lceil>c\<rceil> - 1)" by simp
    then have "\<lceil>c / 2\<rceil> \<le> \<lceil>c\<rceil> - 1" by (simp only: ceiling_le_iff)
    then show ?thesis by simp
  qed
  moreover from c have "0 < \<lceil>c\<rceil>" by linarith
  ultimately show "(2 * x, x) \<in> measure (\<lambda>x. nat \<lceil>4503599627370496 / x\<rceil>)"
    by (simp add: c_def)
qed

function ulp_down :: "rat \<Rightarrow> rat" where
  "ulp_down x = (if 9007199254740992 \<le> x then 2 * ulp_down (x / 2) else 1)"
  by pat_completeness auto
termination
proof (relation "measure (\<lambda>x. nat \<lfloor>x\<rfloor>)")
  show "wf (measure (\<lambda>x. nat \<lfloor>x\<rfloor>))" by simp
next
  fix x :: rat
  assume a: "9007199254740992 \<le> x"
  then have "x / 2 < of_int \<lfloor>x\<rfloor>" by linarith
  then have "\<lfloor>x / 2\<rfloor> < \<lfloor>x\<rfloor>" by (simp add: floor_less_iff)
  moreover from a have "0 < \<lfloor>x\<rfloor>" by linarith
  ultimately show "(x / 2, x) \<in> measure (\<lambda>x. nat \<lfloor>x\<rfloor>)" by simp
qed

definition ulp_of :: "rat \<Rightarrow> rat" where
  "ulp_of x = (if x < 4503599627370496 then ulp_up x else ulp_down x)"

text \<open>Rounding to a multiple of \<open>u\<close>, and to the nearest double.\<close>

definition round_at :: "rat \<Rightarrow> rat \<Rightarrow> rat" where
  "round_at u a = of_int (round_half_even (a / u)) * u"

definition fl :: "rat \<Rightarrow> rat" where
  "fl x = (if x = 0 then 0 else if 0 < x then round_at (ulp_of x) x
           else - round_at (ulp_of (- x)) (- x))"

text \<open>Powers of two, and the unit a positive number is rounded at.\<close>

definition pow2 :: "rat \<Rightarrow> bool" where
  "pow2 u = (\<exists>i::int. u = 2 powi i)"

definition binade :: "rat \<Rightarrow> rat \<Rightarrow> bool" where
  "binade x u = (pow2 u \<and> 4503599627370496 * u \<le> x \<and> x < 9007199254740992 * u)"

datatype jsnum = Fin rat | PInf | NInf | NaN

fun js_neg :: "jsnum \<Rightarrow> jsnum" where
  "js_neg (Fin a) = Fin (- a)"
| "js_neg PInf = NInf"
| "js_neg NInf = PInf"
| "js_neg NaN = NaN"

fun js_add :: "jsnum \<Rightarrow> jsnum \<Rightarrow> jsnum" where
  "js_add (Fin a) (Fin b) = Fin (fl (a + b))"
| "js_add NaN _ = NaN"
| "js_add _ NaN = NaN"
| "js_add PInf NInf = NaN"
| "js_add NInf PInf = NaN"
| "js_add PInf _ = PInf"
| "js_add _ PInf = PInf"
| "js_add NInf _ = NInf"
| "js_add _ NInf = NInf"

definition js_sub :: "jsnum \<Rightarrow> jsnum \<Rightarrow> jsnum" where
  "js_sub a b = js_add a (js_neg b)"

text \<open>The sign of a number: \<open>None\<close> for \<open>NaN\<close>.\<close>

fun js_sign :: "jsnum \<Rightarrow> int option" where
  "js_sign (Fin a) = Some (if a < 0 then - 1 else if a = 0 then 0 else 1)"
| "js_sign PInf = Some 1"
| "js_sign NInf = Some (- 1)"
| "js_sign NaN = None"

fun js_mul :: "jsnum \<Rightarrow> jsnum \<Rightarrow> jsnum" where
  "js_mul (Fin a) (Fin b) = Fin (fl (a * b))"
| "js_mul a b =
     (case (js_sign a, js_sign b) of
        (Some x, Some y) \<Rightarrow>
          (if x * y = 0 then NaN else if 0 < x * y then PInf else NInf)
      | _ \<Rightarrow> NaN)"

text \<open>
  Division never raises: a zero divisor gives an infinity of the dividend's sign, and
  \<open>0 / 0\<close> is \<open>NaN\<close>.
\<close>

fun js_div :: "jsnum \<Rightarrow> jsnum \<Rightarrow> jsnum" where
  "js_div (Fin a) (Fin b) =
     (if b \<noteq> 0 then Fin (fl (a / b))
      else if 0 < a then PInf else if a < 0 then NInf else NaN)"
| "js_div NaN _ = NaN"
| "js_div _ NaN = NaN"
| "js_div (Fin a) _ = Fin 0"
| "js_div PInf (Fin b) = (if b < 0 then NInf else PInf)"
| "js_div NInf (Fin b) = (if b < 0 then PInf else NInf)"
| "js_div _ _ = NaN"

text \<open>\<open>a > b\<close>: false as soon as one side is \<open>NaN\<close>.\<close>

fun js_gt :: "jsnum \<Rightarrow> jsnum \<Rightarrow> bool" where
  "js_gt (Fin a) (Fin b) = (b < a)"
| "js_gt NaN _ = False"
| "js_gt _ NaN = False"
| "js_gt PInf PInf = False"
| "js_gt PInf _ = True"
| "js_gt NInf _ = False"
| "js_gt _ NInf = True"
| "js_gt _ PInf = False"

definition js_truthy :: "jsnum \<Rightarrow> bool" where
  "js_truthy a = (a \<noteq> Fin 0 \<and> a \<noteq> NaN)"

text \<open>
  A property value is a number or \<open>undefined\<close> (what reading a missing property
  gives). The test \<open>v == null\<close> of the source holds of \<open>undefined\<close> only, as
  \<open>null\<close> itself is not modelled.
\<close>

datatype jsv = Undefined | Number jsnum

fun truthy :: "jsv \<Rightarrow> bool" where
  "truthy Undefined = False"
| "truthy (Number a) = js_truthy a"

text \<open>
  A property map is an object whose own properties are kept in insertion order:
  an association list with distinct keys. \<open>hasOwn\<close> is \<open>hasOwnProperty\<close>,
  \<open>getp\<close> is the read \<open>m[p]\<close>, \<open>setp\<close> the write \<open>m[p] = v\<close>.
\<close>

type_synonym props = "(string \<times> jsv) list"

definition hasOwn :: "props \<Rightarrow> string \<Rightarrow> bool" where
  "hasOwn m p = (map_of m p \<noteq> None)"

definition getp :: "props \<Rightarrow> string \<Rightarrow> jsv" where
  "getp m p = (case map_of m p of None \<Rightarrow> Undefined | Some v \<Rightarrow> v)"

definition setp :: "props \<Rightarrow> string \<Rightarrow> jsv \<Rightarrow> props" where
  "setp m p v = AList.update p v m"

text \<open>
  \<open>tools.mixin(target, source)\<close> copies the own properties of the source onto the
  target; the source may be \<open>undefined\<close> (\<open>None\<close>), which copies nothing.
\<close>

definition mixin :: "props \<Rightarrow> props option \<Rightarrow> props" where
  "mixin target source =
     (case source of None \<Rightarrow> target
      | Some src \<Rightarrow> fold (\<lambda>(p, v) acc. setp acc p v) src target)"

section \<open>Frame values: numbers and numeric strings\<close>

text \<open>
  A resolved frame, \<open>maxFrame\<close> and \<open>this.duration\<close> hold a number or a string:
  \<open>_convertKeysToFrames\<close> keeps a numeric label as the string it is
  (\<open>key == +key ? key : ...\<close>).
\<close>

datatype jsval = JNum rat | JStr string

definition is_digit :: "char \<Rightarrow> bool" where
  "is_digit c = (let n = (of_char c :: nat) in 48 \<le> n \<and> n \<le> 57)"

definition digit_value :: "char \<Rightarrow> nat" where
  "digit_value c = of_char c - 48"

definition parse_digits :: "string \<Rightarrow> nat option" where
  "parse_digits s =
     (if s \<noteq> [] \<and> list_all is_digit s
      then Some (foldl (\<lambda>acc c. 10 * acc + digit_value c) 0 s) else None)"

text \<open>
  \<open>ToNumber\<close> of a string, for the labels modelled here: a non-empty string of decimal
  digits is the double nearest to its value, every other string is \<open>NaN\<close>. (Signs,
  fractions, exponents, hexadecimal literals, surrounding white space and the empty
  string are outside the model.)
\<close>

definition str_to_number :: "string \<Rightarrow> jsnum" where
  "str_to_number s = (case parse_digits s of Some n \<Rightarrow> Fin (fl (of_nat n)) | None \<Rightarrow> NaN)"

fun to_jsnum :: "jsval \<Rightarrow> jsnum" where
  "to_jsnum (JNum a) = Fin a"
| "to_jsnum (JStr s) = str_to_number s"

text \<open>The comparison of two strings by code units, as \<open>a < b\<close> does on strings.\<close>

fun str_lt :: "string \<Rightarrow> string \<Rightarrow> bool" where
  "str_lt [] [] = False"
| "str_lt [] (y # ys) = True"
| "str_lt (x # xs) [] = False"
| "str_lt (x # xs) (y # ys) =
     (if (of_char x :: nat) < of_char y then True
      else if (of_char y :: nat) < of_char x then False
      else str_lt xs ys)"

text \<open>
  \<open>a > b\<close> on frame values: two strings are compared as strings, every other pair
  as numbers.
\<close>

fun jsval_gt :: "jsval \<Rightarrow> jsval \<Rightarrow> bool" where
  "jsval_gt (JStr a) (JStr b) = str_lt b a"
| "jsval_gt a b = js_gt (to_jsnum a) (to_jsnum b)"

text \<open>\<open>a === b\<close> between a number and a frame value: never true of a string.\<close>

fun strict_eq_num :: "rat \<Rightarrow> jsval \<Rightarrow> bool" where
  "strict_eq_num a (JNum b) = (a = b)"
| "strict_eq_num a (JStr s) = False"

text \<open>
  The number a frame value denotes as a property key of the keyframe map. The map is
  keyed by the numbers that \<open>Object.keys(this.keyframes).map(Number)\<close> reads back: a
  numeric label is taken to be the spelling that JavaScript gives its number (decimal
  digits without leading zeros, of a whole number that is a double), so that the label
  and its number name the same property.
\<close>

fun frame_key :: "jsval \<Rightarrow> rat" where
  "frame_key (JNum a) = a"
| "frame_key (JStr s) = (case parse_digits s of Some n \<Rightarrow> fl (of_nat n) | None \<Rightarrow> 0)"

section \<open>The data model\<close>

text \<open>
  A segment is a \<open>PropertiesTween\<close> object on which \<open>_createTweens\<close> sets
  \<open>startProgress\<close> and \<open>endProgress\<close>. The class itself is external:
  \<open>new PropertiesTween(from, to, easing).at(progress)\<close> is a parameter
  \<open>tween_at easing from to progress\<close> of every function that calls it.
\<close>

type_synonym tween_at = "(jsnum \<Rightarrow> jsnum) option \<Rightarrow> props \<Rightarrow> props \<Rightarrow> jsnum \<Rightarrow> props"

record tween =
  fromValues :: props
  toValues :: props
  startProgress :: jsnum
  endProgress :: jsnum

text \<open>
  A subject is an external object: the model keeps its identity (a reference, compared
  by \<open>===\<close>) and logs the calls \<open>subject.attr(values)\<close> in the animation's state.
\<close>

record binding =
  subject :: nat
  tweens :: "tween list"

datatype event = BeforeBegin | Play | Pause | End

datatype error = TypeError | NoInitialValue string

text \<open>
  The animation object. \<open>keyframes\<close> maps a frame to its property map, \<open>keys\<close> are
  its frames, sorted. \<open>events\<close> logs the calls of \<open>emit\<close>, \<open>attrLog\<close> the calls of
  \<open>subject.attr(values)\<close>, and \<open>subscribed\<close> says whether \<open>onStep\<close> is registered
  with the clock.
\<close>

record anim =
  duration :: jsval
  keyframes :: "(rat \<times> props) list"
  keys :: "rat list"
  subjects :: "binding list"
  repeat :: jsnum
  delay :: rat
  isTimelineBound :: bool
  easing :: "(jsnum \<Rightarrow> jsnum) option"
  prevFrame :: rat
  frame :: rat
  currentDelay :: rat
  currentTweenIndex :: nat
  isPlaying :: bool
  subscribed :: bool
  events :: "event list"
  attrLog :: "(nat \<times> props) list"

text \<open>
  A method returns the object it mutated (\<open>Inr\<close>), or the exception it threw
  together with the object as the throw left it (\<open>Inl\<close>).
\<close>

type_synonym result = "(error \<times> anim) + anim"

text \<open>\<open>keyframes[frame]\<close>; the frames read are keys of the map.\<close>

definition kf_at :: "(rat \<times> props) list \<Rightarrow> rat \<Rightarrow> props" where
  "kf_at kfs f = (case map_of kfs f of Some m \<Rightarrow> m | None \<Rightarrow> [])"

definition emit :: "event \<Rightarrow> anim \<Rightarrow> anim" where
  "emit e s = s\<lparr>events := events s @ [e]\<rparr>"

section \<open>Keyframe normalizer\<close>

text \<open>\<open>/^\<^verbatim>\<open>\d\<close>+%$/\<close> and the \<open>parseFloat\<close> of a label that matches it.\<close>

definition is_percent :: "string \<Rightarrow> bool" where
  "is_percent key = (key \<noteq> [] \<and> last key = CHR ''%'' \<and> parse_digits (butlast key) \<noteq> None)"

definition percent_value :: "string \<Rightarrow> rat" where
  "percent_value key =
     (case parse_digits (butlast key) of Some n \<Rightarrow> fl (of_nat n) | None \<Rightarrow> 0)"

text \<open>The frame of one label; \<open>duration\<close> is the number the constructor stored.\<close>

definition resolve_frame :: "(jsval \<Rightarrow> rat) \<Rightarrow> rat \<Rightarrow> string \<Rightarrow> jsval" where
  "resolve_frame toFrameNumber d key =
     (if str_to_number key \<noteq> NaN then JStr key
      else if key = ''from'' \<or> key = ''start'' then JNum 0
      else if key = ''to'' \<or> key = ''end'' then JNum d
      else if is_percent key then JNum (fl (fl (d * percent_value key) / 100))
      else JNum (toFrameNumber (JStr key)))"

text \<open>
  The loop of \<open>_convertKeysToFrames\<close> over \<open>Object.keys(keyframes)\<close>, with the state
  \<open>(keyframesClean, maxFrame)\<close>.
\<close>

fun convert_loop ::
  "(jsval \<Rightarrow> rat) \<Rightarrow> rat \<Rightarrow> (string \<times> props) list \<Rightarrow> (rat \<times> props) list \<times> jsval
     \<Rightarrow> (rat \<times> props) list \<times> jsval" where
  "convert_loop toFrameNumber d [] st = st"
| "convert_loop toFrameNumber d ((key, kf) # rest) (clean, maxFrame) =
     (let fr = resolve_frame toFrameNumber d key;
          clean' = AList.update (frame_key fr) kf clean;
          maxFrame' = (if jsval_gt fr maxFrame then fr else maxFrame)
      in convert_loop toFrameNumber d rest (clean', maxFrame'))"

text \<open>
  \<open>_convertKeysToFrames\<close>: the clean keyframe map, and \<open>this.duration\<close> as the
  function leaves it.
\<close>

definition convertKeysToFrames ::
  "(jsval \<Rightarrow> rat) \<Rightarrow> rat \<Rightarrow> (string \<times> props) list \<Rightarrow> (rat \<times> props) list \<times> jsval" where
  "convertKeysToFrames toFrameNumber d decl =
     (let (clean, maxFrame) = convert_loop toFrameNumber d decl ([], JNum 0)
      in (clean, if jsval_gt maxFrame (JNum d) then maxFrame else JNum d))"

section \<open>Segment builder\<close>

text \<open>
  The \<open>forEach\<close> of \<open>_createTweens\<close> over \<open>this.keys\<close>, with the state
  \<open>(totalDuration, prevValues)\<close>; the tweens are returned in the order they are
  pushed. The difference \<open>key - totalDuration\<close>, the sum \<open>totalDuration +=
  animationDuration\<close>, the two quotients and the sum of \<open>endProgress\<close> are doubles.
\<close>

fun createTweens_loop ::
  "jsval \<Rightarrow> (rat \<times> props) list \<Rightarrow> rat \<Rightarrow> props \<Rightarrow> rat list \<Rightarrow> tween list" where
  "createTweens_loop dur kfs totalDuration prevValues [] = []"
| "createTweens_loop dur kfs totalDuration prevValues (key # ks) =
     (if key = 0 then createTweens_loop dur kfs totalDuration prevValues ks
      else
        (let animationDuration = fl (key - totalDuration);
             start = js_div (Fin totalDuration) (to_jsnum dur);
             tw = \<lparr>fromValues = prevValues, toValues = kf_at kfs key,
                   startProgress = start,
                   endProgress = js_add start (js_div (Fin animationDuration) (to_jsnum dur))\<rparr>
         in tw # createTweens_loop dur kfs (fl (totalDuration + animationDuration))
                   (kf_at kfs key) ks))"

definition createTweens :: "anim \<Rightarrow> props \<Rightarrow> tween list" where
  "createTweens s startValues =
     createTweens_loop (duration s) (keyframes s) 0 startValues (keys s)"

section \<open>Property gap-filler\<close>

text \<open>The property names of all keyframes, in the order they are first met.\<close>

definition gatherProperties :: "(rat \<times> props) list \<Rightarrow> rat list \<Rightarrow> string list" where
  "gatherProperties kfs ks =
     fold (\<lambda>key acc. fold (\<lambda>(p, v) acc'. if p \<in> set acc' then acc' else acc' @ [p])
                            (kf_at kfs key) acc) ks []"

text \<open>\<open>while (keysIndex--)\<close>: the indices below \<open>keysIndex\<close>, downwards.\<close>

primrec getFrameOfLastDefinedProperty ::
  "(rat \<times> props) list \<Rightarrow> rat list \<Rightarrow> string \<Rightarrow> nat \<Rightarrow> rat option" where
  "getFrameOfLastDefinedProperty kfs ks prop 0 = None"
| "getFrameOfLastDefinedProperty kfs ks prop (Suc n) =
     (if hasOwn (kf_at kfs (ks ! n)) prop then Some (ks ! n)
      else getFrameOfLastDefinedProperty kfs ks prop n)"

text \<open>The indices from \<open>keysIndex\<close> on, upwards: the first key that defines \<open>prop\<close>.\<close>

definition getFrameOfNextDefinedProperty ::
  "(rat \<times> props) list \<Rightarrow> rat list \<Rightarrow> string \<Rightarrow> nat \<Rightarrow> rat option" where
  "getFrameOfNextDefinedProperty kfs ks prop keysIndex =
     List.find (\<lambda>k. hasOwn (kf_at kfs k) prop) (drop keysIndex ks)"

text \<open>
  The body of the loop over \<open>properties\<close> for the key of index \<open>i\<close> and the property
  \<open>p\<close>. A frame that is \<open>null\<close> (\<open>None\<close>) or \<open>0\<close> is falsy in
  \<open>prevFrame && keyframes[prevFrame][p] || initialValues[p]\<close>, and so is a value that is
  \<open>0\<close>; \<open>null\<close> counts as \<open>0\<close> in the arithmetic of the progress.
\<close>

definition fillInProperty :: "tween_at \<Rightarrow> anim \<Rightarrow> props \<Rightarrow> nat \<Rightarrow> string \<Rightarrow> result" where
  "fillInProperty tween_at s initialValues i p =
     (let kfs = keyframes s; fr = keys s ! i; keyframe = kf_at kfs fr in
      if hasOwn keyframe p then Inr s
      else
        (let prevFrame = getFrameOfLastDefinedProperty kfs (keys s) p i;
             nextFrame = getFrameOfNextDefinedProperty kfs (keys s) p i;
             prevValue =
               (case prevFrame of
                  None \<Rightarrow> getp initialValues p
                | Some f \<Rightarrow>
                    if f \<noteq> 0 \<and> truthy (getp (kf_at kfs f) p) then getp (kf_at kfs f) p
                    else getp initialValues p);
             nextValue =
               (case nextFrame of
                  None \<Rightarrow> Undefined
                | Some f \<Rightarrow> if f \<noteq> 0 then getp (kf_at kfs f) p else Number (Fin 0))
         in if prevValue = Undefined then Inl (NoInitialValue p, s)
            else
              (let nextValue' = (if nextValue = Undefined then prevValue else nextValue);
                   nextFrame' =
                     (if nextValue = Undefined then to_jsnum (duration s)
                      else (case nextFrame of None \<Rightarrow> Fin 0 | Some f \<Rightarrow> Fin f));
                   prevNum = (case prevFrame of None \<Rightarrow> Fin 0 | Some f \<Rightarrow> Fin f);
                   progress = js_div (js_sub (Fin fr) prevNum) (js_sub nextFrame' prevNum);
                   v = getp (tween_at (easing s) [(p, prevValue)] [(p, nextValue')] progress) p
               in Inr (s\<lparr>keyframes := AList.update fr (setp keyframe p v) kfs\<rparr>))))"

fun fill_props :: "tween_at \<Rightarrow> anim \<Rightarrow> props \<Rightarrow> nat \<Rightarrow> string list \<Rightarrow> result" where
  "fill_props tween_at s initialValues i [] = Inr s"
| "fill_props tween_at s initialValues i (p # ps) =
     (case fillInProperty tween_at s initialValues i p of
        Inl e \<Rightarrow> Inl e
      | Inr s' \<Rightarrow> fill_props tween_at s' initialValues i ps)"

fun fill_frames :: "tween_at \<Rightarrow> anim \<Rightarrow> props \<Rightarrow> string list \<Rightarrow> nat list \<Rightarrow> result" where
  "fill_frames tween_at s initialValues properties [] = Inr s"
| "fill_frames tween_at s initialValues properties (i # is) =
     (case fill_props tween_at s initialValues i properties of
        Inl e \<Rightarrow> Inl e
      | Inr s' \<Rightarrow> fill_frames tween_at s' initialValues properties is)"

definition fillInProperties :: "tween_at \<Rightarrow> anim \<Rightarrow> props \<Rightarrow> result" where
  "fillInProperties tween_at s initialValues =
     fill_frames tween_at s initialValues
       (gatherProperties (keyframes s) (keys s)) [0..<length (keys s)]"

section \<open>Subject binding manager\<close>

text \<open>
  \<open>addSubject(subject, strategy)\<close>; \<open>snapshot\<close> is what \<open>subject.attr()\<close> returns.
  The strategy is read into a local variable and not used.
\<close>

definition addSubject :: "tween_at \<Rightarrow> anim \<Rightarrow> nat \<Rightarrow> props \<Rightarrow> result" where
  "addSubject tween_at s subj snapshot =
     (let initialAttributes = mixin snapshot (map_of (keyframes s) 0) in
      case (if subjects s = [] then fillInProperties tween_at s initialAttributes else Inr s) of
        Inl e \<Rightarrow> Inl e
      | Inr s' \<Rightarrow>
          Inr (s'\<lparr>subjects := subjects s' @
                 [\<lparr>subject = subj, tweens = createTweens s' initialAttributes\<rparr>]\<rparr>))"

fun addSubjects :: "tween_at \<Rightarrow> anim \<Rightarrow> (nat \<times> props) list \<Rightarrow> result" where
  "addSubjects tween_at s [] = Inr s"
| "addSubjects tween_at s ((subj, snapshot) # rest) =
     (case addSubject tween_at s subj snapshot of
        Inl e \<Rightarrow> Inl e
      | Inr s' \<Rightarrow> addSubjects tween_at s' rest)"

text \<open>
  \<open>removeSubject(subject)\<close>: the loop over \<open>i < l\<close>, with \<open>l\<close> the length read once.
  On a match the binding is spliced out and the inner loop reads
  \<open>this.animations.length\<close>; the object has no field \<open>animations\<close> (the constructor sets
  none), so the read throws a \<open>TypeError\<close>. Reading \<open>this.subjects[i].subject\<close> beyond
  the list throws too.
\<close>

function removeSubject_loop :: "anim \<Rightarrow> nat \<Rightarrow> nat \<Rightarrow> nat \<Rightarrow> result" where
  "removeSubject_loop s subj i l =
     (if i < l then
        (if i < length (subjects s) then
           (if subject (subjects s ! i) = subj
            then Inl (TypeError, s\<lparr>subjects := take i (subjects s) @ drop (Suc i) (subjects s)\<rparr>)
            else removeSubject_loop s subj (Suc i) l)
         else Inl (TypeError, s))
      else Inr s)"
  by pat_completeness auto
termination
  by (relation "measure (\<lambda>(s, subj, i, l). l - i)") auto

definition removeSubject :: "anim \<Rightarrow> nat \<Rightarrow> result" where
  "removeSubject s subj = removeSubject_loop s subj 0 (length (subjects s))"

section \<open>Playback state machine and step executor\<close>

text \<open>
  \<open>play()\<close>. The event emitted at frame 0 is named \<open>beforebegin\<close>. The arguments
  are not used. \<open>clock.on\<close> registers \<open>onStep\<close>.
\<close>

definition play :: "anim \<Rightarrow> anim" where
  "play s =
     (if isPlaying s then s
      else
        (let s1 = (if frame s = 0 then emit BeforeBegin s else s);
             s2 = emit Play s1;
             s3 = (case map_of (keyframes s2) 0 of
                     Some initial \<Rightarrow>
                       if currentTweenIndex s2 = 0
                       then s2\<lparr>attrLog := attrLog s2 @ map (\<lambda>b. (subject b, initial)) (subjects s2)\<rparr>
                       else s2
                   | None \<Rightarrow> s2)
         in s3\<lparr>isPlaying := True, subscribed := True\<rparr>))"

definition pause :: "anim \<Rightarrow> anim" where
  "pause s = (emit Pause (s\<lparr>subscribed := False\<rparr>))\<lparr>isPlaying := False\<rparr>"

definition reset :: "anim \<Rightarrow> anim" where
  "reset s = s\<lparr>frame := 0, isPlaying := False, currentTweenIndex := 0, subscribed := False\<rparr>"

text \<open>
  The loop at the end of \<open>step\<close>: every bound subject receives the value of its own
  tween of the shared index. A subject with no tween of that index makes
  \<open>currentSubjectTween.at\<close> throw.
\<close>

fun apply_tweens :: "tween_at \<Rightarrow> anim \<Rightarrow> jsnum \<Rightarrow> binding list \<Rightarrow> result" where
  "apply_tweens tween_at s thisPhaseProgress [] = Inr s"
| "apply_tweens tween_at s thisPhaseProgress (b # bs) =
     (if currentTweenIndex s < length (tweens b) then
        (let currentSubjectTween = tweens b ! currentTweenIndex s;
             values = tween_at None (fromValues currentSubjectTween)
                        (toValues currentSubjectTween) thisPhaseProgress
         in apply_tweens tween_at (s\<lparr>attrLog := attrLog s @ [(subject b, values)]\<rparr>)
              thisPhaseProgress bs)
      else Inl (TypeError, s))"

text \<open>
  \<open>step(progress)\<close>. \<open>this.subjects[0].tweens\<close> throws without a bound subject, and
  \<open>curTween.startProgress\<close> throws when the first subject has no tween of the current
  index. The division is the one of the source: nothing guards its divisor.
\<close>

function step :: "tween_at \<Rightarrow> anim \<Rightarrow> jsnum \<Rightarrow> result" where
  "step tween_at s realProgress =
     (let progress = (case easing s of Some e \<Rightarrow> e realProgress | None \<Rightarrow> realProgress) in
      case subjects s of
        [] \<Rightarrow> Inl (TypeError, s)
      | b0 # _ \<Rightarrow>
          (let tweensLength = length (tweens b0) in
           if currentTweenIndex s < tweensLength then
             (let curTween = tweens b0 ! currentTweenIndex s;
                  thisPhaseProgress =
                    js_div (js_sub progress (startProgress curTween))
                           (js_sub (endProgress curTween) (startProgress curTween))
              in if js_gt thisPhaseProgress (Fin 1) \<and> currentTweenIndex s + 1 < tweensLength
                 then step tween_at (s\<lparr>currentTweenIndex := currentTweenIndex s + 1\<rparr>) realProgress
                 else apply_tweens tween_at s thisPhaseProgress (subjects s))
           else Inl (TypeError, s)))"
  by pat_completeness auto
termination
  by (relation "measure (\<lambda>(tween_at, s, p). length (tweens (hd (subjects s))) - currentTweenIndex s)")
     auto

text \<open>
  The block of \<open>onStep\<close> that runs when the play-through is complete: the position and
  the delay are restored, the animation is reset, and it plays again or emits \<open>end\<close>.
  \<open>this.repeat--\<close> is evaluated, and decrements, whenever \<open>this.repeat\<close> is not
  \<open>Infinity\<close>.
\<close>

definition onStep_completed :: "anim \<Rightarrow> anim" where
  "onStep_completed s =
     (let s4 = reset (s\<lparr>prevFrame := 0, currentDelay := delay s\<rparr>) in
      if repeat s4 = PInf then play s4
      else
        (let s5 = s4\<lparr>repeat := js_sub (repeat s4) (Fin 1)\<rparr> in
         if js_gt (repeat s4) (Fin 0) then play s5 else emit End s5))"

text \<open>
  \<open>onStep(_, frameNumber, timelineIsFinished)\<close>, the handler of a clock signal. In
  \<open>this.currentDelay > 0 && this.currentDelay--\<close> the decrement yields the old, positive
  value, so the handler returns.
\<close>

definition onStep :: "tween_at \<Rightarrow> anim \<Rightarrow> rat \<Rightarrow> bool \<Rightarrow> result" where
  "onStep tween_at s frameNumber timelineIsFinished =
     (if 0 < currentDelay s then Inr (s\<lparr>currentDelay := currentDelay s - 1\<rparr>)
      else
        (let s1 = s\<lparr>prevFrame := (if prevFrame s \<noteq> 0 then prevFrame s else frameNumber)\<rparr>;
             dur = duration s1;
             missing = frameNumber - prevFrame s1;
             fr = (if isTimelineBound s1 then frame s1 + (if missing \<noteq> 0 then missing else 1)
                   else frame s1 + 1);
             s2 = s1\<lparr>frame := fr\<rparr>
         in case step tween_at s2 (js_div (Fin fr) (to_jsnum dur)) of
              Inl e \<Rightarrow> Inl e
            | Inr s3 \<Rightarrow>
                if (isTimelineBound s3 \<and> timelineIsFinished) \<or> strict_eq_num fr dur
                then Inr (onStep_completed s3)
                else Inr (s3\<lparr>prevFrame := frameNumber\<rparr>)))"

text \<open>
  The clock calls the handler only while it is registered. \<open>run\<close> delivers \<open>m\<close>
  signals of consecutive frame numbers, the first being \<open>f0\<close>, none of them reporting
  the timeline finished; it stops at a throw.
\<close>

definition clock_signal :: "tween_at \<Rightarrow> anim \<Rightarrow> rat \<Rightarrow> bool \<Rightarrow> result" where
  "clock_signal tween_at s frameNumber fin =
     (if subscribed s then onStep tween_at s frameNumber fin else Inr s)"

fun run :: "tween_at \<Rightarrow> anim \<Rightarrow> rat \<Rightarrow> nat \<Rightarrow> result" where
  "run tween_at s f0 0 = Inr s"
| "run tween_at s f0 (Suc m) =
     (case clock_signal tween_at s f0 False of
        Inl e \<Rightarrow> Inl e
      | Inr s' \<Rightarrow> run tween_at s' (f0 + 1) m)"

section \<open>Constructor\<close>

text \<open>
  The options the constructor reads. \<open>opt_easing\<close> is the easing function the option
  resolves to, if any; each subject comes with what its \<open>attr()\<close> returns.
\<close>

record options =
  opt_easing :: "(jsnum \<Rightarrow> jsnum) option"
  opt_delay :: "jsval option"
  opt_repeat :: "jsnum option"
  opt_isTimelineBound :: "bool option"
  opt_subjects :: "(nat \<times> props) list"

text \<open>\<open>x % 1\<close> and \<open>x || 0\<close> on numbers.\<close>

fun js_mod1 :: "jsnum \<Rightarrow> jsnum" where
  "js_mod1 (Fin a) = Fin (a - of_int (if 0 \<le> a then \<lfloor>a\<rfloor> else \<lceil>a\<rceil>))"
| "js_mod1 _ = NaN"

definition js_or0 :: "jsnum \<Rightarrow> jsnum" where
  "js_or0 a = (if js_truthy a then a else Fin 0)"

fun jsval_truthy :: "jsval \<Rightarrow> bool" where
  "jsval_truthy (JNum a) = (a \<noteq> 0)"
| "jsval_truthy (JStr s) = (s \<noteq> [])"

text \<open>
  \<open>new KeyframeAnimation(clock, duration, keyframes, options)\<close>; of the clock the
  constructor uses \<open>toFrameNumber\<close>. The keyframe declaration lists its labels in the
  order of \<open>Object.keys\<close>.
\<close>

definition KeyframeAnimation ::
  "tween_at \<Rightarrow> (jsval \<Rightarrow> rat) \<Rightarrow> jsval \<Rightarrow> (string \<times> props) list \<Rightarrow> options \<Rightarrow> result" where
  "KeyframeAnimation tween_at toFrameNumber dur decl opts =
     (let d = (case to_jsnum dur of Fin a \<Rightarrow> if a \<noteq> 0 then a else toFrameNumber dur
               | _ \<Rightarrow> toFrameNumber dur);
          dl = (case opt_delay opts of
                  None \<Rightarrow> 0
                | Some v \<Rightarrow> if jsval_truthy v then toFrameNumber v else 0);
          (clean, dur') = convertKeysToFrames toFrameNumber d decl;
          s = \<lparr>duration = dur', keyframes = clean, keys = sort (map fst clean),
               subjects = [],
               repeat = (case opt_repeat opts of
                           None \<Rightarrow> Fin 0
                         | Some r \<Rightarrow> js_sub (js_or0 r) (js_or0 (js_mod1 r))),
               delay = dl,
               isTimelineBound = (opt_isTimelineBound opts \<noteq> Some False),
               easing = opt_easing opts,
               prevFrame = 0, frame = 0, currentDelay = dl, currentTweenIndex = 0,
               isPlaying = False, subscribed = False, events = [], attrLog = []\<rparr>
      in addSubjects tween_at s (opt_subjects opts))"

text \<open>
  Modelled from the spec: the interpolation primitive (\<open>properties_tween.js\<close> is not
  part of the sources at hand). Given two value maps and a progress it returns the
  interpolated map, here linearly in the eased progress; the concrete evaluations below
  use it where a primitive is needed.
\<close>

fun lerp :: "jsv \<Rightarrow> jsv \<Rightarrow> jsnum \<Rightarrow> jsv" where
  "lerp (Number a) (Number b) t = Number (js_add a (js_mul (js_sub b a) t))"
| "lerp _ _ _ = Undefined"

definition linear_at :: tween_at where
  "linear_at ease from to progress =
     (let t = (case ease of None \<Rightarrow> progress | Some e \<Rightarrow> e progress)
      in map (\<lambda>(p, a). (p, lerp a (getp to p) t)) from)"

text \<open>A clock without time labels: \<open>toFrameNumber\<close> of a number is the number.\<close>

fun frames_only :: "jsval \<Rightarrow> rat" where
  "frames_only (JNum a) = a"
| "frames_only (JStr s) = 0"

section \<open>Reading results, and the properties of segment lists\<close>

text \<open>The object as a call leaves it, and the exception it threw, if any.\<close>

definition result_anim :: "result \<Rightarrow> anim" where
  "result_anim r = (case r of Inr s \<Rightarrow> s | Inl (e, s) \<Rightarrow> s)"

definition thrown :: "result \<Rightarrow> error option" where
  "thrown r = (case r of Inr s \<Rightarrow> None | Inl (e, s) \<Rightarrow> Some e)"

text \<open>The progress window of a segment.\<close>

definition window :: "tween \<Rightarrow> jsnum \<times> jsnum" where
  "window t = (startProgress t, endProgress t)"




definition nonzero_keys :: "rat list \<Rightarrow> rat list" where
  "nonzero_keys ks = filter (\<lambda>k. k \<noteq> 0) ks"







text \<open>
  Every bound subject has as many segments as the first one, and at least one: what
  \<open>step\<close> needs to read the segment of the shared index in every subject.
\<close>

definition subjects_ok :: "anim \<Rightarrow> bool" where
  "subjects_ok s =
     (subjects s \<noteq> [] \<and> tweens (hd (subjects s)) \<noteq> [] \<and>
      list_all (\<lambda>b. length (tweens b) = length (tweens (hd (subjects s)))) (subjects s))"

text \<open>
  An animation at the start of a play-through, just after \<open>play()\<close>: of duration \<open>n\<close>
  frames, with a delay of \<open>c\<close> frames still to run, at frame 0 and registered with the
  clock.
\<close>

definition armed :: "nat \<Rightarrow> nat \<Rightarrow> anim \<Rightarrow> bool" where
  "armed n c s =
     (subjects_ok s \<and> duration s = JNum (of_nat n) \<and> delay s = of_nat c \<and>
      currentDelay s = of_nat c \<and> frame s = 0 \<and> prevFrame s = 0 \<and>
      currentTweenIndex s = 0 \<and> subscribed s \<and> isPlaying s)"

section \<open>Example animations\<close>

definition no_options :: options where
  "no_options = \<lparr>opt_easing = None, opt_delay = None, opt_repeat = None,
     opt_isTimelineBound = None, opt_subjects = []\<rparr>"

text \<open>
  \<open>new KeyframeAnimation(clock, 10, {0: {x: 0}, 5: {x: 50}, 10: {x: 100}},
  {subjects: a})\<close>, the subject \<open>a\<close> having \<open>x = 7\<close>.
\<close>

definition three_keyframes :: result where
  "three_keyframes = KeyframeAnimation linear_at frames_only (JNum 10)
      [(''0'', [(''x'', Number (Fin 0))]), (''5'', [(''x'', Number (Fin 50))]),
       (''10'', [(''x'', Number (Fin 100))])]
      (no_options\<lparr>opt_subjects := [(1, [(''x'', Number (Fin 7))])]\<rparr>)"



text \<open>
  \<open>new KeyframeAnimation(clock, 10, {5: {x: 50}, 20: {x: 100}})\<close>, with the labels in
  either order.
\<close>

definition late_keyframe :: result where
  "late_keyframe = KeyframeAnimation linear_at frames_only (JNum 10)
      [(''5'', [(''x'', Number (Fin 50))]), (''20'', [(''x'', Number (Fin 100))])] no_options"

definition late_keyframe_rev :: result where
  "late_keyframe_rev = KeyframeAnimation linear_at frames_only (JNum 10)
      [(''20'', [(''x'', Number (Fin 100))]), (''5'', [(''x'', Number (Fin 50))])] no_options"

text \<open>
  \<open>new KeyframeAnimation(clock, 10, {5: {x: 0}, 10: {y: 1}}, {subjects: a})\<close>, where
  \<open>a.attr()\<close> returns \<open>snapshot\<close>.
\<close>

definition falsy_backward :: "props \<Rightarrow> result" where
  "falsy_backward snapshot = KeyframeAnimation linear_at frames_only (JNum 10)
      [(''5'', [(''x'', Number (Fin 0))]), (''10'', [(''y'', Number (Fin 1))])]
      (no_options\<lparr>opt_subjects := [(1, snapshot)]\<rparr>)"

text \<open>\<open>new KeyframeAnimation(clock, 10, {0: {x: 0}, 10: {x: 100}})\<close>: no subject is bound.\<close>

definition no_subjects :: result where
  "no_subjects = KeyframeAnimation linear_at frames_only (JNum 10)
      [(''0'', [(''x'', Number (Fin 0))]), (''10'', [(''x'', Number (Fin 100))])] no_options"

text \<open>
  The animation \<open>three_keyframes\<close> with the segment list of its subject replaced by
  one whose first segment has the window \<open>[0, 0)\<close>.
\<close>

definition zero_length :: anim where
  "zero_length = (result_anim three_keyframes)
     \<lparr>subjects := [\<lparr>subject = 1, tweens =
        [\<lparr>fromValues = [(''x'', Number (Fin 0))], toValues = [(''x'', Number (Fin 50))],
          startProgress = Fin 0, endProgress = Fin 0\<rparr>,
         \<lparr>fromValues = [(''x'', Number (Fin 50))], toValues = [(''x'', Number (Fin 100))],
          startProgress = Fin 0, endProgress = Fin 1\<rparr>]\<rparr>]\<rparr>"

text \<open>
  \<open>new KeyframeAnimation(clock, 5, {0: {x: 0}, 5: {x: 100}}, {delay: 3, subjects: a})\<close>
  and the same with \<open>repeat: 2\<close> in place of the delay.
\<close>

definition delayed :: result where
  "delayed = KeyframeAnimation linear_at frames_only (JNum 5)
      [(''0'', [(''x'', Number (Fin 0))]), (''5'', [(''x'', Number (Fin 100))])]
      (no_options\<lparr>opt_delay := Some (JNum 3), opt_subjects := [(1, [(''x'', Number (Fin 7))])]\<rparr>)"

definition repeating :: result where
  "repeating = KeyframeAnimation linear_at frames_only (JNum 5)
      [(''0'', [(''x'', Number (Fin 0))]), (''5'', [(''x'', Number (Fin 100))])]
      (no_options\<lparr>opt_repeat := Some (Fin 2), opt_subjects := [(1, [(''x'', Number (Fin 7))])]\<rparr>)"

text \<open>
  \<open>new KeyframeAnimation(clock, 5, {0: {x: 0}, 10: {x: 100}}, {repeat: 2, subjects: a})\<close>:
  the last keyframe lies beyond the declared duration.
\<close>

definition widened :: result where
  "widened = KeyframeAnimation linear_at frames_only (JNum 5)
      [(''0'', [(''x'', Number (Fin 0))]), (''10'', [(''x'', Number (Fin 100))])]
      (no_options\<lparr>opt_repeat := Some (Fin 2), opt_subjects := [(1, [(''x'', Number (Fin 7))])]\<rparr>)"

section \<open>Evaluation\<close>

declare step.simps [simp del] removeSubject_loop.simps [simp del]
declare ulp_up.simps [simp del] ulp_down.simps [simp del]

text \<open>
  \<open>fl\<close> is evaluated on a numeral by unfolding it; the floor of a quotient of numerals
  is their integer quotient.
\<close>

lemma floor_rat_numeral: "\<lfloor>numeral a / (numeral b :: rat)\<rfloor> = numeral a div numeral b"
  by (metis floor_divide_of_int_eq of_int_numeral)

lemma floor_rat_one: "\<lfloor>1 / (numeral b :: rat)\<rfloor> = 1 div numeral b"
  by (metis floor_divide_of_int_eq of_int_numeral of_int_1)

lemmas fl_eval = fl_def ulp_of_def round_at_def round_half_even_def ulp_up.simps ulp_down.simps
  floor_rat_numeral floor_rat_one

lemmas model_defs = convertKeysToFrames_def resolve_frame_def str_to_number_def parse_digits_def
  is_digit_def digit_value_def is_percent_def percent_value_def addSubject_def fillInProperties_def
  gatherProperties_def fillInProperty_def getFrameOfNextDefinedProperty_def createTweens_def
  kf_at_def hasOwn_def getp_def setp_def mixin_def js_sub_def js_truthy_def js_or0_def linear_at_def
  KeyframeAnimation_def emit_def no_options_def result_anim_def thrown_def window_def Let_def
  fl_eval

lemma three_keyframes_eval:
  "three_keyframes = Inr
     \<lparr>duration = JNum 10,
      keyframes = [(0, [(''x'', Number (Fin 0))]), (5, [(''x'', Number (Fin 50))]),
                   (10, [(''x'', Number (Fin 100))])],
      keys = [0, 5, 10],
      subjects = [\<lparr>subject = 1, tweens =
        [\<lparr>fromValues = [(''x'', Number (Fin 0))], toValues = [(''x'', Number (Fin 50))],
          startProgress = Fin 0, endProgress = Fin (1 / 2)\<rparr>,
         \<lparr>fromValues = [(''x'', Number (Fin 50))], toValues = [(''x'', Number (Fin 100))],
          startProgress = Fin (1 / 2), endProgress = Fin 1\<rparr>]\<rparr>],
      repeat = Fin 0, delay = 0, isTimelineBound = True, easing = None,
      prevFrame = 0, frame = 0, currentDelay = 0, currentTweenIndex = 0,
      isPlaying = False, subscribed = False, events = [], attrLog = []\<rparr>"
  by (simp add: three_keyframes_def model_defs)


section \<open>Rounding to the nearest double\<close>

lemma pow2_pos: "pow2 u \<Longrightarrow> 0 < u"
  by (auto simp: pow2_def zero_less_power_int)

lemma pow2_1: "pow2 1"
  unfolding pow2_def by (rule exI[of _ 0]) simp

lemma pow2_double: "pow2 u \<Longrightarrow> pow2 (2 * u)"
  unfolding pow2_def
proof (elim exE)
  fix i :: int assume "u = 2 powi i"
  then have "2 * u = 2 powi (i + 1)" by (simp add: power_int_add)
  then show "\<exists>j::int. 2 * u = 2 powi j" by blast
qed

lemma pow2_half: "pow2 u \<Longrightarrow> pow2 (u / 2)"
  unfolding pow2_def
proof (elim exE)
  fix i :: int assume "u = 2 powi i"
  then have "u / 2 = 2 powi (i - 1)" by (simp add: power_int_diff)
  then show "\<exists>j::int. u / 2 = 2 powi j" by blast
qed

lemma pow2_less: "pow2 u \<Longrightarrow> pow2 v \<Longrightarrow> u < v \<Longrightarrow> 2 * u \<le> v"
proof -
  assume "pow2 u" "pow2 v" "u < v"
  then obtain i j :: int where u: "u = 2 powi i" and v: "v = 2 powi j"
    by (auto simp: pow2_def)
  have "i < j"
  proof (rule ccontr)
    assume "\<not> i < j"
    then have "j \<le> i" by simp
    then have "(2::rat) powi j \<le> 2 powi i" by (intro power_int_increasing) simp_all
    with u v \<open>u < v\<close> show False by simp
  qed
  then have "i + 1 \<le> j" by simp
  then have "(2::rat) powi (i + 1) \<le> 2 powi j" by (intro power_int_increasing) simp_all
  with u v show ?thesis by (simp add: power_int_add)
qed

lemma ulp_up_binade:
  "0 < x \<Longrightarrow> x < 9007199254740992 \<Longrightarrow> binade x (ulp_up x)"
proof (induction x rule: ulp_up.induct)
  case (1 x)
  show ?case
  proof (cases "x < 4503599627370496")
    case True
    with 1 have b: "binade (2 * x) (ulp_up (2 * x))" by simp
    from True 1 have e: "ulp_up x = ulp_up (2 * x) / 2" by (subst ulp_up.simps) simp
    from b have "pow2 (ulp_up (2 * x) / 2)" by (simp add: binade_def pow2_half)
    with b show ?thesis unfolding e by (simp add: binade_def)
  next
    case False
    then have "ulp_up x = 1" by (subst ulp_up.simps) simp
    with False 1 show ?thesis by (simp add: binade_def pow2_1)
  qed
qed

lemma ulp_down_binade:
  "4503599627370496 \<le> x \<Longrightarrow> binade x (ulp_down x)"
proof (induction x rule: ulp_down.induct)
  case (1 x)
  show ?case
  proof (cases "9007199254740992 \<le> x")
    case True
    with 1 have b: "binade (x / 2) (ulp_down (x / 2))" by simp
    from True have e: "ulp_down x = 2 * ulp_down (x / 2)" by (subst ulp_down.simps) simp
    from b have "pow2 (2 * ulp_down (x / 2))" by (simp add: binade_def pow2_double)
    with b show ?thesis unfolding e by (simp add: binade_def)
  next
    case False
    then have "ulp_down x = 1" by (subst ulp_down.simps) simp
    with False 1 show ?thesis by (simp add: binade_def pow2_1)
  qed
qed

lemma ulp_of_binade: "0 < x \<Longrightarrow> binade x (ulp_of x)"
  by (simp add: ulp_of_def ulp_up_binade ulp_down_binade)

lemma binade_unique: "binade x u \<Longrightarrow> binade x v \<Longrightarrow> u = v"
proof (rule ccontr)
  assume a: "binade x u" "binade x v" and ne: "u \<noteq> v"
  have False if b: "binade x p" "binade x q" and lt: "p < q" for p q
  proof -
    from b lt have "2 * p \<le> q" by (intro pow2_less) (simp_all add: binade_def)
    with b show False by (simp add: binade_def)
  qed
  from this[of u v] this[of v u] a ne show False by (cases "u < v") auto
qed

lemma rhe_of_int: "round_half_even (of_int n) = n"
  by (simp add: round_half_even_def)

lemma rhe_lower: "of_int n \<le> x \<Longrightarrow> n \<le> round_half_even x"
proof -
  assume "of_int n \<le> x"
  then have "n \<le> \<lfloor>x\<rfloor>" by (simp add: le_floor_iff)
  then show ?thesis by (auto simp: round_half_even_def Let_def)
qed

lemma rhe_upper: "x \<le> of_int n \<Longrightarrow> round_half_even x \<le> n"
proof (cases "x = of_int n")
  case True
  then show ?thesis by (simp add: rhe_of_int)
next
  case False
  assume "x \<le> of_int n"
  with False have "x < of_int n" by simp
  then have "\<lfloor>x\<rfloor> < n" by (simp add: floor_less_iff)
  then show ?thesis by (auto simp: round_half_even_def Let_def)
qed



lemma fl_0 [simp]: "fl 0 = 0"
  by (simp add: fl_def)

lemma fl_minus: "fl (- x) = - fl x"
  by (simp add: fl_def)

lemma round_at_bounds:
  assumes "binade x u"
  shows "4503599627370496 * u \<le> round_at u x \<and> round_at u x \<le> 9007199254740992 * u"
proof -
  from assms have u: "0 < u" by (simp add: binade_def pow2_pos)
  with assms have lo: "of_int 4503599627370496 \<le> x / u"
    and hi: "x / u \<le> of_int 9007199254740992"
    by (simp_all add: binade_def pos_le_divide_eq pos_divide_le_eq)
  have "4503599627370496 \<le> round_half_even (x / u)"
    "round_half_even (x / u) \<le> 9007199254740992"
    using lo hi by (simp_all only: rhe_lower rhe_upper)
  then have "(4503599627370496::rat) \<le> of_int (round_half_even (x / u))"
    "of_int (round_half_even (x / u)) \<le> (9007199254740992::rat)"
    by (metis of_int_le_iff of_int_numeral)+
  with u show ?thesis by (simp add: round_at_def)
qed

lemma fl_pos: "0 < x \<Longrightarrow> 0 < fl x"
proof -
  assume x: "0 < x"
  from ulp_of_binade[OF x] have "0 < ulp_of x" by (simp add: binade_def pow2_pos)
  then have "0 < 4503599627370496 * ulp_of x" by simp
  with round_at_bounds[OF ulp_of_binade[OF x]]
  have "0 < round_at (ulp_of x) x" by linarith
  with x show ?thesis by (simp add: fl_def)
qed

lemma fl_pos_iff [simp]: "0 < fl x \<longleftrightarrow> 0 < x"
proof (cases "0 < x")
  case True
  then show ?thesis by (simp add: fl_pos)
next
  case False
  show ?thesis
  proof (cases "x = 0")
    case False
    with \<open>\<not> 0 < x\<close> have "0 < - x" by simp
    then have "0 < fl (- x)" by (rule fl_pos)
    with \<open>\<not> 0 < x\<close> show ?thesis by (simp add: fl_minus)
  qed simp
qed

lemma fl_neg_iff [simp]: "fl x < 0 \<longleftrightarrow> x < 0"
  using fl_pos_iff[of "- x"] by (simp add: fl_minus)

lemma fl_zero_iff [simp]: "fl x = 0 \<longleftrightarrow> x = 0"
  using fl_pos_iff[of x] fl_neg_iff[of x] by (cases "x = 0") (simp, linarith)

lemma fl_nonneg_iff [simp]: "0 \<le> fl x \<longleftrightarrow> 0 \<le> x"
  using fl_neg_iff[of x] by linarith

text \<open>A number with a significand of 53 bits is its own rounding.\<close>

lemma fl_fixed:
  assumes u: "pow2 u" and n: "4503599627370496 \<le> n" "n \<le> 9007199254740992"
  shows "fl (of_int n * u) = of_int n * u"
proof -
  from u have up: "0 < u" by (rule pow2_pos)
  from n have np: "(0::rat) < of_int n" by simp
  with up have xp: "0 < of_int n * u" by simp
  have nq: "(4503599627370496::rat) \<le> of_int n" "of_int n \<le> (9007199254740992::rat)"
    using n by (metis of_int_le_iff of_int_numeral)+
  show ?thesis
  proof (cases "n = 9007199254740992")
    case True
    then have e: "of_int n * u = of_int 4503599627370496 * (2 * u)" by simp
    from u up have "binade (of_int n * u) (2 * u)"
      unfolding e by (simp add: binade_def pow2_double)
    with ulp_of_binade[OF xp] have "ulp_of (of_int n * u) = 2 * u" by (rule binade_unique)
    moreover have "of_int n * u / (2 * u) = of_int 4503599627370496" using up True by simp
    ultimately have "round_at (ulp_of (of_int n * u)) (of_int n * u) = of_int 4503599627370496 * (2 * u)"
      unfolding round_at_def by (simp only: rhe_of_int)
    with xp e show ?thesis by (simp add: fl_def)
  next
    case False
    with n have "n < 9007199254740992" by simp
    then have "of_int n < (9007199254740992::rat)" by (metis of_int_less_iff of_int_numeral)
    with nq u up have "binade (of_int n * u) u" by (simp add: binade_def)
    with ulp_of_binade[OF xp] have "ulp_of (of_int n * u) = u" by (rule binade_unique)
    moreover have "of_int n * u / u = of_int n" using up by simp
    ultimately have "round_at (ulp_of (of_int n * u)) (of_int n * u) = of_int n * u"
      unfolding round_at_def by (simp only: rhe_of_int)
    with xp show ?thesis by (simp add: fl_def)
  qed
qed

lemma fl_idem [simp]: "fl (fl x) = fl x"
proof -
  have pos: "fl (fl x) = fl x" if x: "0 < x" for x
  proof -
    let ?u = "ulp_of x"
    let ?n = "round_half_even (x / ?u)"
    from ulp_of_binade[OF x] have b: "binade x ?u" .
    then have u: "pow2 ?u" "0 < ?u" by (simp_all add: binade_def pow2_pos)
    with b have lo: "of_int 4503599627370496 \<le> x / ?u"
      and hi: "x / ?u \<le> of_int 9007199254740992"
      by (simp_all add: binade_def pos_le_divide_eq pos_divide_le_eq)
    have n: "4503599627370496 \<le> ?n" "?n \<le> 9007199254740992"
      using lo hi by (simp_all only: rhe_lower rhe_upper)
    from fl_fixed[OF u(1) n] x show ?thesis by (simp add: fl_def round_at_def)
  qed
  show ?thesis
  proof (cases "0 < x")
    case True
    then show ?thesis by (rule pos)
  next
    case False
    show ?thesis
    proof (cases "x = 0")
      case False
      with \<open>\<not> 0 < x\<close> have "0 < - x" by simp
      from pos[OF this] show ?thesis by (simp add: fl_minus)
    qed simp
  qed
qed

text \<open>Whole numbers up to \<open>2^53\<close> are doubles.\<close>

lemma fl_of_int:
  assumes "\<bar>m\<bar> \<le> 9007199254740992"
  shows "fl (of_int m) = of_int m"
proof -
  have pos: "fl (of_int m) = of_int m" if m: "0 < m" "m \<le> 9007199254740992" for m :: int
  proof -
    let ?x = "of_int m :: rat"
    from m have x: "0 < ?x" by simp
    let ?u = "ulp_of ?x"
    from ulp_of_binade[OF x] have b: "binade ?x ?u" .
    then obtain i :: int where i: "?u = 2 powi i" by (auto simp: binade_def pow2_def)
    from b have up: "0 < ?u" by (simp add: binade_def pow2_pos)
    from m have xle: "?x \<le> 9007199254740992" by (metis of_int_le_iff of_int_numeral)
    with b have "4503599627370496 * ?u \<le> 9007199254740992" by (simp add: binade_def)
    then have "?u \<le> 2 powi 1" by simp
    have "i \<le> 1"
    proof (rule ccontr)
      assume "\<not> i \<le> 1"
      then have "2 \<le> i" by simp
      then have "(2::rat) powi 2 \<le> 2 powi i" by (intro power_int_increasing) simp_all
      with i \<open>?u \<le> 2 powi 1\<close> show False by simp
    qed
    show ?thesis
    proof (cases "i = 1")
      case True
      with i have u2: "?u = 2" by simp
      with b xle have "?x = of_int 9007199254740992" by (simp add: binade_def)
      then have "?x = of_int 4503599627370496 * 2" by simp
      moreover have "fl (of_int 4503599627370496 * 2) = of_int 4503599627370496 * 2"
        by (rule fl_fixed) (simp_all add: pow2_double[OF pow2_1, simplified])
      ultimately show ?thesis by simp
    next
      case False
      with \<open>i \<le> 1\<close> have i0: "i \<le> 0" by simp
      define k where "k = nat (- i)"
      from i0 have "i = - int k" by (simp add: k_def)
      with i have u: "?u = 1 / 2 ^ k" by (simp add: power_int_minus field_simps)
      then have q: "?x / ?u = of_int (m * 2 ^ k)" by simp
      have "round_at ?u ?x = of_int (m * 2 ^ k) * ?u"
        unfolding round_at_def q by (simp only: rhe_of_int)
      also have "\<dots> = ?x" using u by simp
      finally show ?thesis using x by (simp add: fl_def)
    qed
  qed
  show ?thesis
  proof (cases "0 < m")
    case True
    with assms pos[of m] show ?thesis by simp
  next
    case False
    show ?thesis
    proof (cases "m = 0")
      case False
      with \<open>\<not> 0 < m\<close> assms have "0 < - m" "- m \<le> 9007199254740992" by simp_all
      from pos[OF this] show ?thesis by (simp add: fl_minus)
    qed simp
  qed
qed










text \<open>The values of \<open>fl\<close> that the examples need.\<close>

lemma fl_one [simp]: "fl 1 = 1"
  using fl_of_int[of 1] by simp

lemma fl_of_nat: "n \<le> 9007199254740992 \<Longrightarrow> fl (of_nat n) = of_nat n"
  using fl_of_int[of "int n"] by simp

lemma fl_numeral:
  "(numeral n :: int) \<le> 9007199254740992 \<Longrightarrow> fl (numeral n) = numeral n"
  using fl_of_int[of "numeral n"] by simp







lemma fl_half: "fl (1 / 2) = 1 / 2"
  by (simp add: fl_eval Let_def)

section \<open>Segment construction\<close>















section \<open>Keyframe normalizer: the duration after construction\<close>

text \<open>
  C3 at the keyframes \<open>{5: ..., 20: ...}\<close> and the declared duration 10. The labels are
  numeric, so their frames are the strings \<open>"5"\<close> and \<open>"20"\<close>; \<open>frame > maxFrame\<close>
  then compares two strings, and \<open>"20" > "5"\<close> is false. \<open>maxFrame\<close> ends as \<open>"5"\<close>
  and the duration stays 10, below the keyframe at frame 20, in whichever order the
  labels are visited.
\<close>

theorem duration_not_widened:
  "thrown late_keyframe = None \<and>
   keys (result_anim late_keyframe) = [5, 20] \<and>
   duration (result_anim late_keyframe) = JNum 10 \<and>
   keys (result_anim late_keyframe_rev) = [5, 20] \<and>
   duration (result_anim late_keyframe_rev) = JNum 10"
  by (simp add: late_keyframe_def late_keyframe_rev_def model_defs)

section \<open>Gap-filler\<close>

lemma kf_at_update:
  "kf_at (AList.update fr m kfs) k = (if k = fr then m else kf_at kfs k)"
  by (simp add: kf_at_def update_conv')

lemma hasOwn_setp: "hasOwn (setp m p v) q = (q = p \<or> hasOwn m q)"
  by (simp add: hasOwn_def setp_def update_conv')

lemma fillInProperty_defines:
  assumes "fillInProperty tween_at s init i p = Inr s'"
  shows "keys s' = keys s \<and> hasOwn (kf_at (keyframes s') (keys s ! i)) p \<and>
         (\<forall>k q. hasOwn (kf_at (keyframes s) k) q \<longrightarrow> hasOwn (kf_at (keyframes s') k) q)"
  using assms unfolding fillInProperty_def Let_def
  by (auto simp: kf_at_update hasOwn_setp split: if_splits)

lemma fill_props_defines:
  "fill_props tween_at s init i ps = Inr s' \<Longrightarrow>
     keys s' = keys s \<and> (\<forall>p\<in>set ps. hasOwn (kf_at (keyframes s') (keys s ! i)) p) \<and>
     (\<forall>k q. hasOwn (kf_at (keyframes s) k) q \<longrightarrow> hasOwn (kf_at (keyframes s') k) q)"
proof (induction ps arbitrary: s)
  case Nil
  then show ?case by simp
next
  case (Cons p ps)
  then obtain s1 where 1: "fillInProperty tween_at s init i p = Inr s1"
    and 2: "fill_props tween_at s1 init i ps = Inr s'"
    by (auto split: sum.splits)
  from fillInProperty_defines[OF 1] Cons.IH[OF 2] show ?case by auto
qed

lemma fill_frames_defines:
  "fill_frames tween_at s init ps is = Inr s' \<Longrightarrow>
     keys s' = keys s \<and> (\<forall>i\<in>set is. \<forall>p\<in>set ps. hasOwn (kf_at (keyframes s') (keys s ! i)) p) \<and>
     (\<forall>k q. hasOwn (kf_at (keyframes s) k) q \<longrightarrow> hasOwn (kf_at (keyframes s') k) q)"
proof (induction "is" arbitrary: s)
  case Nil
  then show ?case by simp
next
  case (Cons i "is")
  then obtain s1 where 1: "fill_props tween_at s init i ps = Inr s1"
    and 2: "fill_frames tween_at s1 init ps is = Inr s'"
    by (auto split: sum.splits)
  from fill_props_defines[OF 1] Cons.IH[OF 2] show ?case by auto
qed

lemma gatherProperties_complete:
  "k \<in> set ks \<Longrightarrow> hasOwn (kf_at kfs k) p \<Longrightarrow> p \<in> set (gatherProperties kfs ks)"
proof -
  have inner: "set (fold (\<lambda>(p, v) acc'. if p \<in> set acc' then acc' else acc' @ [p]) m acc) =
      set acc \<union> fst ` set m" for m :: props and acc
    by (induction m arbitrary: acc) (auto split: prod.splits)
  have outer: "set (fold (\<lambda>key acc. fold (\<lambda>(p, v) acc'. if p \<in> set acc' then acc' else acc' @ [p])
                            (kf_at kfs key) acc) ks acc) =
      set acc \<union> (\<Union>k\<in>set ks. fst ` set (kf_at kfs k))" for acc
    by (induction ks arbitrary: acc) (auto simp: inner)
  assume "k \<in> set ks" "hasOwn (kf_at kfs k) p"
  then obtain v where "(p, v) \<in> set (kf_at kfs k)"
    by (auto simp: hasOwn_def dest: map_of_SomeD)
  then have "p \<in> fst ` set (kf_at kfs k)" by force
  with \<open>k \<in> set ks\<close> show ?thesis unfolding gatherProperties_def outer by blast
qed

text \<open>
  When the gap-filler returns, every property named in some keyframe is an own property
  of every keyframe.
\<close>

lemma fillInProperties_defines_all:
  assumes "fillInProperties tween_at s init = Inr s'"
  shows "keys s' = keys s \<and>
         (\<forall>k\<in>set (keys s). \<forall>p\<in>set (gatherProperties (keyframes s) (keys s)).
            hasOwn (kf_at (keyframes s') k) p)"
proof -
  from fill_frames_defines[OF assms[unfolded fillInProperties_def]]
  have k: "keys s' = keys s"
    and d: "\<forall>i\<in>set [0..<length (keys s)]. \<forall>p\<in>set (gatherProperties (keyframes s) (keys s)).
       hasOwn (kf_at (keyframes s') (keys s ! i)) p" by blast+
  have "hasOwn (kf_at (keyframes s') k) p"
    if "k \<in> set (keys s)" "p \<in> set (gatherProperties (keyframes s) (keys s))" for k p
  proof -
    from that(1) obtain i where "i < length (keys s)" "keys s ! i = k"
      by (auto simp: in_set_conv_nth)
    with d that(2) show ?thesis by auto
  qed
  then have "\<forall>k\<in>set (keys s). \<forall>p\<in>set (gatherProperties (keyframes s) (keys s)).
            hasOwn (kf_at (keyframes s') k) p" by blast
  with k show ?thesis by simp
qed

text \<open>
  The gap-filler throws for a missing property exactly when the subject has no initial
  value for it and the nearest backward frame that defines it is absent, is the frame 0,
  or holds a falsy value.
\<close>

lemma fillInProperty_throws_iff:
  "thrown (fillInProperty tween_at s init i p) =
     (if \<not> hasOwn (kf_at (keyframes s) (keys s ! i)) p \<and> getp init p = Undefined \<and>
         (case getFrameOfLastDefinedProperty (keyframes s) (keys s) p i of
            None \<Rightarrow> True
          | Some f \<Rightarrow> f = 0 \<or> \<not> truthy (getp (kf_at (keyframes s) f) p))
      then Some (NoInitialValue p) else None)"
  unfolding fillInProperty_def Let_def thrown_def
  by (auto split: option.splits)

text \<open>
  C2 at the keyframes \<open>{5: {x: 0}, 10: {y: 1}}\<close>, duration 10, and a subject with
  \<open>x = 100, y = 0\<close>. At frame 10 the property \<open>x\<close> is missing; the nearest backward
  frame that defines it is 5, with \<open>x = 0\<close>, and no forward frame does. The value
  \<open>0\<close> is falsy, so \<open>prevValue\<close> is the subject's initial 100 and frame 10 receives
  \<open>x = 100\<close>.
\<close>

theorem fillInProperties_falsy_value:
  "thrown (falsy_backward [(''x'', Number (Fin 100)), (''y'', Number (Fin 0))]) = None \<and>
   keyframes (result_anim (falsy_backward [(''x'', Number (Fin 100)), (''y'', Number (Fin 0))])) =
     [(5, [(''x'', Number (Fin 0)), (''y'', Number (Fin (1 / 2)))]),
      (10, [(''y'', Number (Fin 1)), (''x'', Number (Fin 100))])]"
  by (simp add: falsy_backward_def model_defs)

text \<open>
  C4 at the same keyframes and a subject with \<open>y = 2\<close> and no \<open>x\<close>. Frame 5 defines
  \<open>x = 0\<close>, the value is falsy, the subject has no initial \<open>x\<close>: the gap-filler throws
  at frame 10 although a backward keyframe value exists.
\<close>

theorem fillInProperties_throws_falsy_value:
  "thrown (falsy_backward [(''y'', Number (Fin 2))]) = Some (NoInitialValue ''x'') \<and>
   hasOwn (kf_at (keyframes (result_anim (falsy_backward [(''y'', Number (Fin 2))]))) 5) ''x'' \<and>
   getp (kf_at (keyframes (result_anim (falsy_backward [(''y'', Number (Fin 2))]))) 5) ''x'' =
     Number (Fin 0)"
  by (simp add: falsy_backward_def model_defs)

section \<open>Subject binding manager: removal\<close>

lemma removeSubject_loop_no_match:
  "\<forall>b\<in>set (subjects s). subject b \<noteq> subj \<Longrightarrow> l \<le> length (subjects s) \<Longrightarrow>
     removeSubject_loop s subj i l = Inr s"
proof (induction s subj i l rule: removeSubject_loop.induct)
  case (1 s subj i l)
  then show ?case by (subst removeSubject_loop.simps) auto
qed

text \<open>Without a binding of the subject, \<open>removeSubject\<close> changes nothing and throws nothing.\<close>

lemma removeSubject_no_match:
  "\<forall>b\<in>set (subjects s). subject b \<noteq> subj \<Longrightarrow> removeSubject s subj = Inr s"
  by (simp add: removeSubject_def removeSubject_loop_no_match)

lemma removeSubject_loop_match:
  "\<exists>j. i \<le> j \<and> j < l \<and> subject (subjects s ! j) = subj \<Longrightarrow> l \<le> length (subjects s) \<Longrightarrow>
     thrown (removeSubject_loop s subj i l) = Some TypeError"
proof (induction s subj i l rule: removeSubject_loop.induct)
  case (1 s subj i l)
  show ?case
  proof (cases "subject (subjects s ! i) = subj")
    case True
    with 1 show ?thesis by (subst removeSubject_loop.simps) (auto simp: thrown_def)
  next
    case False
    from 1(2) obtain j where j: "i \<le> j" "j < l" "subject (subjects s ! j) = subj" by blast
    with False have "Suc i \<le> j" by (cases "i = j") auto
    with j 1 False show ?thesis by (subst removeSubject_loop.simps) auto
  qed
qed

text \<open>With a binding of the subject, \<open>removeSubject\<close> throws.\<close>

lemma removeSubject_match_throws:
  assumes "b \<in> set (subjects s)" "subject b = subj"
  shows "thrown (removeSubject s subj) = Some TypeError"
proof -
  from assms obtain j where "j < length (subjects s)" "subject (subjects s ! j) = subj"
    by (auto simp: in_set_conv_nth)
  then have "\<exists>j. 0 \<le> j \<and> j < length (subjects s) \<and> subject (subjects s ! j) = subj" by blast
  then show ?thesis unfolding removeSubject_def by (rule removeSubject_loop_match) simp
qed

text \<open>
  C9 at the animation \<open>three_keyframes\<close>, whose one binding is of the subject 1:
  \<open>removeSubject\<close> of that subject splices the binding out and then throws a
  \<open>TypeError\<close>, reading \<open>this.animations.length\<close>; of another subject it changes nothing.
\<close>

theorem removeSubject_throws:
  "thrown (removeSubject (result_anim three_keyframes) 1) = Some TypeError \<and>
   subjects (result_anim (removeSubject (result_anim three_keyframes) 1)) = [] \<and>
   removeSubject (result_anim three_keyframes) 2 = Inr (result_anim three_keyframes)"
  by (simp add: three_keyframes_eval result_anim_def thrown_def removeSubject_def
      removeSubject_loop.simps)

section \<open>Notifications of play\<close>

text \<open>
  C8, as amended. A \<open>play()\<close> call on a playing animation changes nothing and emits
  nothing. A \<open>play()\<close> call on an animation that is not playing emits \<open>play\<close>, and before
  it \<open>beforebegin\<close> whenever the frame is 0, whether or not the animation has been
  played before.
\<close>

theorem play_notifications:
  "(isPlaying s \<longrightarrow> play s = s) \<and>
   (\<not> isPlaying s \<longrightarrow>
      events (play s) = events s @ (if frame s = 0 then [BeforeBegin] else []) @ [Play] \<and>
      isPlaying (play s))"
  by (simp add: play_def emit_def Let_def split: option.splits)

text \<open>
  The theorem at the animation \<open>three_keyframes\<close>: its first \<open>play()\<close> emits
  \<open>beforebegin\<close> and \<open>play\<close>, a second call right after it is a no-op.
\<close>

theorem play_notifications_witness:
  "\<not> isPlaying (result_anim three_keyframes) \<and>
   events (play (result_anim three_keyframes)) = [BeforeBegin, Play] \<and>
   isPlaying (play (result_anim three_keyframes)) \<and>
   play (play (result_anim three_keyframes)) = play (result_anim three_keyframes)"
proof -
  have a: "\<not> isPlaying (result_anim three_keyframes)"
    and f: "frame (result_anim three_keyframes) = 0"
    and e: "events (result_anim three_keyframes) = []"
    by (simp_all add: three_keyframes_eval result_anim_def)
  from play_notifications[of "result_anim three_keyframes"] a f e
  have p: "events (play (result_anim three_keyframes)) = [BeforeBegin, Play]"
    "isPlaying (play (result_anim three_keyframes))" by simp_all
  with play_notifications[of "play (result_anim three_keyframes)"] a show ?thesis by simp
qed

text \<open>
  C8 as stated fails: \<open>play()\<close>, \<open>pause()\<close>, \<open>play()\<close> with no clock signal in between
  emits \<open>beforebegin\<close> twice, the second call being at frame 0 as the first.
\<close>

theorem beforebegin_twice_counterexample:
  "events (play (pause (play (result_anim three_keyframes)))) =
     [BeforeBegin, Play, Pause, BeforeBegin, Play]"
  by (simp add: three_keyframes_eval result_anim_def play_def pause_def emit_def)

section \<open>Step executor\<close>

text \<open>
  C10. With no bound subject \<open>step\<close> throws a \<open>TypeError\<close> whatever the progress, and
  so does the handler of a clock signal once the delay has run out.
\<close>

theorem step_needs_subject:
  assumes "subjects s = []"
  shows "step tween_at s progress = Inl (TypeError, s) \<and>
         (\<not> 0 < currentDelay s \<longrightarrow>
            thrown (onStep tween_at s frameNumber fin) = Some TypeError)"
  using assms by (simp add: step.simps onStep_def thrown_def Let_def)

lemma no_subjects_eval:
  "no_subjects = Inr
     \<lparr>duration = JNum 10,
      keyframes = [(0, [(''x'', Number (Fin 0))]), (10, [(''x'', Number (Fin 100))])],
      keys = [0, 10], subjects = [],
      repeat = Fin 0, delay = 0, isTimelineBound = True, easing = None,
      prevFrame = 0, frame = 0, currentDelay = 0, currentTweenIndex = 0,
      isPlaying = False, subscribed = False, events = [], attrLog = []\<rparr>"
  by (simp add: no_subjects_def model_defs)

text \<open>The theorem at the animation \<open>no_subjects\<close>, before and after \<open>play()\<close>.\<close>

theorem step_needs_subject_witness:
  "subjects (result_anim no_subjects) = [] \<and>
   step linear_at (result_anim no_subjects) (Fin (1 / 2)) =
     Inl (TypeError, result_anim no_subjects) \<and>
   subjects (play (result_anim no_subjects)) = [] \<and>
   \<not> 0 < currentDelay (play (result_anim no_subjects)) \<and>
   thrown (onStep linear_at (play (result_anim no_subjects)) 1 False) = Some TypeError"
proof -
  have a: "subjects (result_anim no_subjects) = []"
    by (simp add: no_subjects_eval result_anim_def)
  have b: "subjects (play (result_anim no_subjects)) = []"
    "\<not> 0 < currentDelay (play (result_anim no_subjects))"
    by (simp_all add: no_subjects_eval result_anim_def play_def emit_def)
  from step_needs_subject[OF a, of linear_at "Fin (1 / 2)"]
    step_needs_subject[OF b(1), of linear_at _ 1 False] a b
  show ?thesis by simp
qed

text \<open>
  C5, as amended. \<open>step\<close> divides by \<open>endProgress - startProgress\<close> unguarded. On an
  active segment of zero length, at the finite progress \<open>a\<close>, the phase-local progress
  is \<open>+Infinity\<close> when the eased progress \<open>q\<close> is beyond \<open>a\<close>, \<open>-Infinity\<close> when it is
  before \<open>a\<close> and \<open>NaN\<close> when it is \<open>a\<close>. Only in the first case does it exceed 1:
  then \<open>step\<close> moves on to the next segment if there is one. In every other case the
  subjects receive the value of the zero-length segment at that phase-local progress.
\<close>

theorem step_zero_length:
  assumes "subjects s = b0 # bs" and "currentTweenIndex s < length (tweens b0)"
    and "startProgress (tweens b0 ! currentTweenIndex s) = Fin a"
    and "endProgress (tweens b0 ! currentTweenIndex s) = Fin a"
    and "(case easing s of Some e \<Rightarrow> e realProgress | None \<Rightarrow> realProgress) = Fin q"
  shows "step tween_at s realProgress =
     (if a < q \<and> currentTweenIndex s + 1 < length (tweens b0)
      then step tween_at (s\<lparr>currentTweenIndex := currentTweenIndex s + 1\<rparr>) realProgress
      else apply_tweens tween_at s (if a < q then PInf else if q < a then NInf else NaN)
             (subjects s))"
  using assms by (subst step.simps) (auto simp: js_sub_def Let_def)

lemma zero_length_eval:
  "zero_length =
     \<lparr>duration = JNum 10,
      keyframes = [(0, [(''x'', Number (Fin 0))]), (5, [(''x'', Number (Fin 50))]),
                   (10, [(''x'', Number (Fin 100))])],
      keys = [0, 5, 10],
      subjects = [\<lparr>subject = 1, tweens =
        [\<lparr>fromValues = [(''x'', Number (Fin 0))], toValues = [(''x'', Number (Fin 50))],
          startProgress = Fin 0, endProgress = Fin 0\<rparr>,
         \<lparr>fromValues = [(''x'', Number (Fin 50))], toValues = [(''x'', Number (Fin 100))],
          startProgress = Fin 0, endProgress = Fin 1\<rparr>]\<rparr>],
      repeat = Fin 0, delay = 0, isTimelineBound = True, easing = None,
      prevFrame = 0, frame = 0, currentDelay = 0, currentTweenIndex = 0,
      isPlaying = False, subscribed = False, events = [], attrLog = []\<rparr>"
  by (simp add: zero_length_def three_keyframes_eval result_anim_def)

text \<open>
  The theorem at the animation \<open>zero_length\<close> and the progress \<open>1/2\<close>, beyond the
  zero-length segment: \<open>step\<close> moves on to the second segment, and the subject
  receives its value at \<open>1/2\<close>.
\<close>

theorem step_zero_length_witness:
  "subjects zero_length = [hd (subjects zero_length)] \<and>
   currentTweenIndex zero_length < length (tweens (hd (subjects zero_length))) \<and>
   startProgress (tweens (hd (subjects zero_length)) ! currentTweenIndex zero_length) = Fin 0 \<and>
   endProgress (tweens (hd (subjects zero_length)) ! currentTweenIndex zero_length) = Fin 0 \<and>
   easing zero_length = None \<and>
   step linear_at zero_length (Fin (1 / 2)) =
     step linear_at (zero_length\<lparr>currentTweenIndex := 1\<rparr>) (Fin (1 / 2)) \<and>
   step linear_at zero_length (Fin (1 / 2)) =
     Inr (zero_length\<lparr>currentTweenIndex := 1, attrLog := [(1, [(''x'', Number (Fin 75))])]\<rparr>)"
proof -
  have h: "subjects zero_length = hd (subjects zero_length) # []"
    "currentTweenIndex zero_length < length (tweens (hd (subjects zero_length)))"
    "startProgress (tweens (hd (subjects zero_length)) ! currentTweenIndex zero_length) = Fin 0"
    "endProgress (tweens (hd (subjects zero_length)) ! currentTweenIndex zero_length) = Fin 0"
    "(case easing zero_length of Some e \<Rightarrow> e (Fin (1 / 2)) | None \<Rightarrow> Fin (1 / 2)) = Fin (1 / 2)"
    by (simp_all add: zero_length_eval)
  have e: "easing zero_length = None" by (simp add: zero_length_eval)
  have adv: "step linear_at zero_length (Fin (1 / 2)) =
      step linear_at (zero_length\<lparr>currentTweenIndex := 1\<rparr>) (Fin (1 / 2))"
    using step_zero_length[OF h, of linear_at] by (simp add: zero_length_eval)
  have "step linear_at (zero_length\<lparr>currentTweenIndex := 1\<rparr>) (Fin (1 / 2)) =
      Inr (zero_length\<lparr>currentTweenIndex := 1, attrLog := [(1, [(''x'', Number (Fin 75))])]\<rparr>)"
    by (simp add: zero_length_eval step.simps js_sub_def linear_at_def getp_def Let_def
        fl_numeral fl_half)
  with adv h e show ?thesis by simp
qed

text \<open>
  C5 as stated fails at the animation \<open>zero_length\<close> and the progress 0, the start of
  the zero-length segment: the division is \<open>0 / 0\<close>, the phase-local progress \<open>NaN\<close>
  is not treated as at least 1, \<open>step\<close> stays on the zero-length segment although a
  further one exists, and the subject receives \<open>x = NaN\<close>.
\<close>

theorem step_zero_length_counterexample:
  "startProgress (tweens (hd (subjects zero_length)) ! currentTweenIndex zero_length) =
     endProgress (tweens (hd (subjects zero_length)) ! currentTweenIndex zero_length) \<and>
   currentTweenIndex zero_length + 1 < length (tweens (hd (subjects zero_length))) \<and>
   step linear_at zero_length (Fin 0) =
     Inr (zero_length\<lparr>attrLog := [(1, [(''x'', Number NaN)])]\<rparr>) \<and>
   currentTweenIndex (result_anim (step linear_at zero_length (Fin 0))) = 0"
  by (simp add: zero_length_eval step.simps js_sub_def linear_at_def getp_def result_anim_def
      Let_def)

section \<open>Clock signals: delay, frames and repeats\<close>

lemma apply_tweens_ok:
  "list_all (\<lambda>b. currentTweenIndex s < length (tweens b)) bs \<Longrightarrow>
   apply_tweens tween_at s ph bs =
     Inr (s\<lparr>attrLog := attrLog s @
            map (\<lambda>b. (subject b, tween_at None (fromValues (tweens b ! currentTweenIndex s))
                                   (toValues (tweens b ! currentTweenIndex s)) ph)) bs\<rparr>)"
  by (induction bs arbitrary: s) (simp_all add: Let_def)

lemma step_ok:
  "subjects_ok s \<Longrightarrow> currentTweenIndex s < length (tweens (hd (subjects s))) \<Longrightarrow>
   \<exists>j extra. step tween_at s p = Inr (s\<lparr>currentTweenIndex := j, attrLog := attrLog s @ extra\<rparr>) \<and>
     j < length (tweens (hd (subjects s))) \<and> length extra = length (subjects s)"
proof (induction tween_at s p rule: step.induct)
  case (1 tween_at s realProgress)
  from "1.prems" obtain b0 bs where sub: "subjects s = b0 # bs"
    by (cases "subjects s") (auto simp: subjects_ok_def)
  let ?progress = "case easing s of Some e \<Rightarrow> e realProgress | None \<Rightarrow> realProgress"
  let ?cur = "tweens b0 ! currentTweenIndex s"
  let ?ph = "js_div (js_sub ?progress (startProgress ?cur))
                    (js_sub (endProgress ?cur) (startProgress ?cur))"
  from "1.prems" sub have idx: "currentTweenIndex s < length (tweens b0)" by simp
  show ?case
  proof (cases "js_gt ?ph (Fin 1) \<and> currentTweenIndex s + 1 < length (tweens b0)")
    case True
    let ?s' = "s\<lparr>currentTweenIndex := currentTweenIndex s + 1\<rparr>"
    have ok': "subjects_ok ?s'" using "1.prems"(1) by (simp add: subjects_ok_def)
    have idx': "currentTweenIndex ?s' < length (tweens (hd (subjects ?s')))" using True sub by simp
    from "1.IH"[OF refl sub refl idx refl refl True ok' idx']
    obtain j extra where
      "step tween_at ?s' realProgress = Inr (?s'\<lparr>currentTweenIndex := j, attrLog := attrLog ?s' @ extra\<rparr>)"
      "j < length (tweens (hd (subjects ?s')))" "length extra = length (subjects ?s')" by blast
    moreover have "step tween_at s realProgress = step tween_at ?s' realProgress"
      using True sub idx by (subst step.simps) (simp add: Let_def)
    ultimately show ?thesis by auto
  next
    case False
    have all: "list_all (\<lambda>b. currentTweenIndex s < length (tweens b)) (subjects s)"
      using "1.prems" sub by (auto simp: subjects_ok_def list_all_iff)
    have "step tween_at s realProgress = apply_tweens tween_at s ?ph (subjects s)"
      using False sub idx by (subst step.simps) (auto simp: Let_def)
    with apply_tweens_ok[OF all] idx sub show ?thesis
      by (intro exI[of _ "currentTweenIndex s"]) auto
  qed
qed

lemma onStep_delay:
  "0 < currentDelay s \<Longrightarrow> onStep tween_at s fn fin = Inr (s\<lparr>currentDelay := currentDelay s - 1\<rparr>)"
  by (simp add: onStep_def)

lemma onStep_advance:
  assumes ok: "subjects_ok s" and idx: "currentTweenIndex s < length (tweens (hd (subjects s)))"
    and nd: "\<not> 0 < currentDelay s"
    and pf: "prevFrame s = 0 \<or> prevFrame s = fn - 1"
  shows "\<exists>j extra p. j < length (tweens (hd (subjects s))) \<and> length extra = length (subjects s) \<and>
     onStep tween_at s fn False =
       (if strict_eq_num (frame s + 1) (duration s)
        then Inr (onStep_completed (s\<lparr>prevFrame := p,
               frame := frame s + 1, currentTweenIndex := j, attrLog := attrLog s @ extra\<rparr>))
        else Inr (s\<lparr>prevFrame := fn, frame := frame s + 1, currentTweenIndex := j,
               attrLog := attrLog s @ extra\<rparr>))"
proof -
  define p where "p = (if prevFrame s \<noteq> 0 then prevFrame s else fn)"
  let ?s2 = "s\<lparr>prevFrame := p, frame := frame s + 1\<rparr>"
  have ok2: "subjects_ok ?s2" using ok by (simp add: subjects_ok_def)
  have idx2: "currentTweenIndex ?s2 < length (tweens (hd (subjects ?s2)))" using idx by simp
  from step_ok[OF ok2 idx2, of tween_at "js_div (Fin (frame s + 1)) (to_jsnum (duration s))"]
  obtain j extra where st: "step tween_at ?s2 (js_div (Fin (frame s + 1)) (to_jsnum (duration s))) =
      Inr (?s2\<lparr>currentTweenIndex := j, attrLog := attrLog ?s2 @ extra\<rparr>)"
    and j: "j < length (tweens (hd (subjects s)))" and len: "length extra = length (subjects s)"
    by auto
  from pf have "fn = p \<or> fn = p + 1" by (auto simp: p_def)
  then have "onStep tween_at s fn False =
       (if strict_eq_num (frame s + 1) (duration s)
        then Inr (onStep_completed (s\<lparr>prevFrame := p,
               frame := frame s + 1, currentTweenIndex := j, attrLog := attrLog s @ extra\<rparr>))
        else Inr (s\<lparr>prevFrame := fn, frame := frame s + 1, currentTweenIndex := j,
               attrLog := attrLog s @ extra\<rparr>))"
  proof
    assume "fn = p"
    with nd st show ?thesis unfolding onStep_def Let_def p_def[symmetric] by simp
  next
    assume "fn = p + 1"
    with nd st show ?thesis unfolding onStep_def Let_def p_def[symmetric] by simp
  qed
  with j len show ?thesis by blast
qed

lemma run_add:
  "run tween_at s f0 (a + b) =
     (case run tween_at s f0 a of Inl e \<Rightarrow> Inl e | Inr s' \<Rightarrow> run tween_at s' (f0 + of_nat a) b)"
proof (induction a arbitrary: s f0)
  case 0
  then show ?case by simp
next
  case (Suc a)
  have eq: "f0 + 1 + of_nat a = f0 + of_nat (Suc a)" by simp
  show ?case
  proof (cases "clock_signal tween_at s f0 False")
    case (Inl e)
    then show ?thesis by simp
  next
    case (Inr s')
    have 1: "run tween_at s f0 (Suc a + b) = run tween_at s' (f0 + 1) (a + b)"
      using Inr by simp
    have 2: "run tween_at s f0 (Suc a) = run tween_at s' (f0 + 1) a"
      using Inr by simp
    show ?thesis unfolding 1 2 Suc eq by (rule refl)
  qed
qed

lemma run_delay:
  "subscribed s \<Longrightarrow> currentDelay s = of_nat c \<Longrightarrow> m \<le> c \<Longrightarrow>
     run tween_at s f0 m = Inr (s\<lparr>currentDelay := of_nat (c - m)\<rparr>)"
proof (induction m arbitrary: s c f0)
  case 0
  then show ?case by simp
next
  case (Suc m)
  then obtain c' where c: "c = Suc c'" by (cases c) auto
  let ?s' = "s\<lparr>currentDelay := of_nat c'\<rparr>"
  from Suc.prems c have "clock_signal tween_at s f0 False = Inr ?s'"
    by (simp add: clock_signal_def onStep_delay)
  moreover have "run tween_at ?s' (f0 + 1) m = Inr (?s'\<lparr>currentDelay := of_nat (c' - m)\<rparr>)"
    using Suc.prems c by (intro Suc.IH) auto
  ultimately show ?case using c by simp
qed

lemma run_advance:
  assumes "subjects_ok s" "currentTweenIndex s < length (tweens (hd (subjects s)))"
    "currentDelay s = 0" "subscribed s" "duration s = JNum (of_nat n)" "frame s = of_nat k"
    "k + m < n" "prevFrame s = 0 \<or> prevFrame s = f0 - 1"
  shows "\<exists>j extra pf. run tween_at s f0 m =
       Inr (s\<lparr>prevFrame := pf, frame := of_nat (k + m), currentTweenIndex := j,
              attrLog := attrLog s @ extra\<rparr>) \<and>
     j < length (tweens (hd (subjects s))) \<and> length extra = m * length (subjects s) \<and>
     (pf = 0 \<or> pf = f0 + of_nat m - 1)"
  using assms
proof (induction m arbitrary: s k f0)
  case 0
  have "s\<lparr>prevFrame := prevFrame s, frame := of_nat k, currentTweenIndex := currentTweenIndex s,
          attrLog := attrLog s @ []\<rparr> = s" using 0 by simp
  with 0 show ?case
    by (intro exI[of _ "currentTweenIndex s"] exI[of _ "[]"] exI[of _ "prevFrame s"]) simp
next
  case (Suc m)
  from Suc.prems have nd: "\<not> 0 < currentDelay s" by simp
  from onStep_advance[OF Suc.prems(1,2) nd Suc.prems(8), of tween_at]
  obtain j extra p where j: "j < length (tweens (hd (subjects s)))"
    and len: "length extra = length (subjects s)"
    and st: "onStep tween_at s f0 False =
       (if strict_eq_num (frame s + 1) (duration s)
        then Inr (onStep_completed (s\<lparr>prevFrame := p,
               frame := frame s + 1, currentTweenIndex := j, attrLog := attrLog s @ extra\<rparr>))
        else Inr (s\<lparr>prevFrame := f0, frame := frame s + 1, currentTweenIndex := j,
               attrLog := attrLog s @ extra\<rparr>))" by blast
  let ?s' = "s\<lparr>prevFrame := f0, frame := frame s + 1, currentTweenIndex := j,
               attrLog := attrLog s @ extra\<rparr>"
  from Suc.prems have ne: "(of_nat k :: rat) + 1 \<noteq> of_nat n"
    by (metis Suc_eq_plus1 add_Suc_right less_add_Suc1 nat_neq_iff of_nat_Suc of_nat_eq_iff not_add_less1 add.commute)
  with st Suc.prems have sig: "clock_signal tween_at s f0 False = Inr ?s'"
    by (simp add: clock_signal_def)
  have "\<exists>j' extra' pf. run tween_at ?s' (f0 + 1) m =
       Inr (?s'\<lparr>prevFrame := pf, frame := of_nat (Suc k + m), currentTweenIndex := j',
              attrLog := attrLog ?s' @ extra'\<rparr>) \<and>
     j' < length (tweens (hd (subjects ?s'))) \<and> length extra' = m * length (subjects ?s') \<and>
     (pf = 0 \<or> pf = f0 + 1 + of_nat m - 1)"
    using Suc.prems j by (intro Suc.IH) (auto simp: subjects_ok_def)
  then obtain j' extra' pf where r: "run tween_at ?s' (f0 + 1) m =
       Inr (?s'\<lparr>prevFrame := pf, frame := of_nat (Suc k + m), currentTweenIndex := j',
              attrLog := attrLog ?s' @ extra'\<rparr>)"
    and j': "j' < length (tweens (hd (subjects s)))" and len': "length extra' = m * length (subjects s)"
    and pf: "pf = 0 \<or> pf = f0 + 1 + of_nat m - 1" by auto
  from sig r have "run tween_at s f0 (Suc m) =
     Inr (s\<lparr>prevFrame := pf, frame := of_nat (k + Suc m), currentTweenIndex := j',
            attrLog := attrLog s @ (extra @ extra')\<rparr>)" by simp
  moreover from len len' have "length (extra @ extra') = Suc m * length (subjects s)" by simp
  moreover from pf have "pf = 0 \<or> pf = f0 + of_nat (Suc m) - 1" by auto
  ultimately show ?case using j' by blast
qed


text \<open>
  While the duration is a string, \<open>frame === duration\<close> is false at every frame: the
  signals go on stepping and never reach the completion block.
\<close>

lemma run_string_duration:
  assumes "subjects_ok s" "currentTweenIndex s < length (tweens (hd (subjects s)))"
    "currentDelay s = 0" "subscribed s" "duration s = JStr str"
    "prevFrame s = 0 \<or> prevFrame s = f0 - 1"
  shows "\<exists>j extra pf. run tween_at s f0 m =
       Inr (s\<lparr>prevFrame := pf, frame := frame s + of_nat m, currentTweenIndex := j,
              attrLog := attrLog s @ extra\<rparr>) \<and>
     j < length (tweens (hd (subjects s))) \<and> length extra = m * length (subjects s) \<and>
     (pf = 0 \<or> pf = f0 + of_nat m - 1)"
  using assms
proof (induction m arbitrary: s f0)
  case 0
  have "s\<lparr>prevFrame := prevFrame s, frame := frame s + of_nat 0,
          currentTweenIndex := currentTweenIndex s, attrLog := attrLog s @ []\<rparr> = s"
    by simp
  with 0 show ?case
    by (intro exI[of _ "currentTweenIndex s"] exI[of _ "[]"] exI[of _ "prevFrame s"]) simp
next
  case (Suc m)
  from Suc.prems have nd: "\<not> 0 < currentDelay s" by simp
  from onStep_advance[OF Suc.prems(1,2) nd Suc.prems(6), of tween_at]
  obtain j extra p where j: "j < length (tweens (hd (subjects s)))"
    and len: "length extra = length (subjects s)"
    and st: "onStep tween_at s f0 False =
       (if strict_eq_num (frame s + 1) (duration s)
        then Inr (onStep_completed (s\<lparr>prevFrame := p,
               frame := frame s + 1, currentTweenIndex := j, attrLog := attrLog s @ extra\<rparr>))
        else Inr (s\<lparr>prevFrame := f0, frame := frame s + 1, currentTweenIndex := j,
               attrLog := attrLog s @ extra\<rparr>))" by blast
  let ?s' = "s\<lparr>prevFrame := f0, frame := frame s + 1, currentTweenIndex := j,
               attrLog := attrLog s @ extra\<rparr>"
  from st Suc.prems have sig: "clock_signal tween_at s f0 False = Inr ?s'"
    by (simp add: clock_signal_def)
  have "\<exists>j' extra' pf. run tween_at ?s' (f0 + 1) m =
       Inr (?s'\<lparr>prevFrame := pf, frame := frame ?s' + of_nat m, currentTweenIndex := j',
              attrLog := attrLog ?s' @ extra'\<rparr>) \<and>
     j' < length (tweens (hd (subjects ?s'))) \<and> length extra' = m * length (subjects ?s') \<and>
     (pf = 0 \<or> pf = f0 + 1 + of_nat m - 1)"
    using Suc.prems j by (intro Suc.IH) (auto simp: subjects_ok_def)
  then obtain j' extra' pf where r: "run tween_at ?s' (f0 + 1) m =
       Inr (?s'\<lparr>prevFrame := pf, frame := frame ?s' + of_nat m, currentTweenIndex := j',
              attrLog := attrLog ?s' @ extra'\<rparr>)"
    and j': "j' < length (tweens (hd (subjects s)))" and len': "length extra' = m * length (subjects s)"
    and pf: "pf = 0 \<or> pf = f0 + 1 + of_nat m - 1" by auto
  from sig r have "run tween_at s f0 (Suc m) =
     Inr (s\<lparr>prevFrame := pf, frame := frame s + of_nat (Suc m), currentTweenIndex := j',
            attrLog := attrLog s @ (extra @ extra')\<rparr>)" by (simp add: add.assoc)
  moreover from len len' have "length (extra @ extra') = Suc m * length (subjects s)" by simp
  moreover from pf have "pf = 0 \<or> pf = f0 + of_nat (Suc m) - 1" by auto
  ultimately show ?case using j' by blast
qed

lemma onStep_completed_position:
  "onStep_completed (s\<lparr>currentDelay := d, prevFrame := a, frame := b, currentTweenIndex := j,
      attrLog := l\<rparr>) = onStep_completed (s\<lparr>attrLog := l\<rparr>)"
  by (simp add: onStep_completed_def reset_def play_def emit_def Let_def)

lemma run_cycle_within:
  assumes a: "armed n c s" and k: "k < n"
  shows "\<exists>j extra pf. run tween_at s f0 (c + k) =
       Inr (s\<lparr>currentDelay := 0, prevFrame := pf, frame := of_nat k, currentTweenIndex := j,
              attrLog := attrLog s @ extra\<rparr>) \<and>
     j < length (tweens (hd (subjects s))) \<and> length extra = k * length (subjects s) \<and>
     (pf = 0 \<or> pf = f0 + of_nat (c + k) - 1)"
proof -
  let ?sc = "s\<lparr>currentDelay := 0\<rparr>"
  from a have d: "run tween_at s f0 c = Inr ?sc"
    using run_delay[of s c c tween_at f0] by (simp add: armed_def)
  from a k have "\<exists>j extra pf. run tween_at ?sc (f0 + of_nat c) k =
       Inr (?sc\<lparr>prevFrame := pf, frame := of_nat (0 + k), currentTweenIndex := j,
              attrLog := attrLog ?sc @ extra\<rparr>) \<and>
     j < length (tweens (hd (subjects ?sc))) \<and> length extra = k * length (subjects ?sc) \<and>
     (pf = 0 \<or> pf = f0 + of_nat c + of_nat k - 1)"
    by (intro run_advance[where n = n]) (auto simp: armed_def subjects_ok_def)
  then obtain j extra pf where "run tween_at ?sc (f0 + of_nat c) k =
       Inr (?sc\<lparr>prevFrame := pf, frame := of_nat k, currentTweenIndex := j,
              attrLog := attrLog s @ extra\<rparr>)"
    "j < length (tweens (hd (subjects s)))" "length extra = k * length (subjects s)"
    "pf = 0 \<or> pf = f0 + of_nat (c + k) - 1" by (auto simp: add.assoc)
  moreover from d have "run tween_at s f0 (c + k) = run tween_at ?sc (f0 + of_nat c) k"
    by (simp add: run_add)
  ultimately show ?thesis by (intro exI[of _ j] exI[of _ extra] exI[of _ pf]) simp
qed

lemma run_cycle_complete:
  assumes a: "armed n c s" and n: "0 < n"
  shows "\<exists>extra. run tween_at s f0 (c + n) = Inr (onStep_completed (s\<lparr>attrLog := attrLog s @ extra\<rparr>)) \<and>
     length extra = n * length (subjects s)"
proof -
  from n obtain n' where n': "n = Suc n'" by (cases n) auto
  then have "n' < n" by simp
  from run_cycle_within[OF a this, of tween_at f0]
  obtain j extra pf where r: "run tween_at s f0 (c + n') =
       Inr (s\<lparr>currentDelay := 0, prevFrame := pf, frame := of_nat n', currentTweenIndex := j,
              attrLog := attrLog s @ extra\<rparr>)"
    and j: "j < length (tweens (hd (subjects s)))" and len: "length extra = n' * length (subjects s)"
    and pf: "pf = 0 \<or> pf = f0 + of_nat (c + n') - 1" by blast
  let ?sa = "s\<lparr>currentDelay := 0, prevFrame := pf, frame := of_nat n', currentTweenIndex := j,
              attrLog := attrLog s @ extra\<rparr>"
  have ok: "subjects_ok ?sa" using a by (simp add: armed_def subjects_ok_def)
  have idx: "currentTweenIndex ?sa < length (tweens (hd (subjects ?sa)))" using j by simp
  have nd: "\<not> 0 < currentDelay ?sa" by simp
  have pf': "prevFrame ?sa = 0 \<or> prevFrame ?sa = f0 + of_nat (c + n') - 1" using pf by simp
  from onStep_advance[OF ok idx nd pf', of tween_at]
  obtain j' extra' p where len': "length extra' = length (subjects s)"
    and st: "onStep tween_at ?sa (f0 + of_nat (c + n')) False =
       (if strict_eq_num (frame ?sa + 1) (duration ?sa)
        then Inr (onStep_completed (?sa\<lparr>prevFrame := p,
               frame := frame ?sa + 1, currentTweenIndex := j', attrLog := attrLog ?sa @ extra'\<rparr>))
        else Inr (?sa\<lparr>prevFrame := f0 + of_nat (c + n'), frame := frame ?sa + 1, currentTweenIndex := j',
               attrLog := attrLog ?sa @ extra'\<rparr>))" by auto
  have eq: "strict_eq_num (frame ?sa + 1) (duration ?sa)" using a n' by (simp add: armed_def)
  have "run tween_at ?sa (f0 + of_nat (c + n')) 1 =
      Inr (onStep_completed (s\<lparr>attrLog := attrLog s @ (extra @ extra')\<rparr>))"
    using a st eq by (simp add: clock_signal_def armed_def onStep_completed_position)
  with r have "run tween_at s f0 (c + n' + 1) =
      Inr (onStep_completed (s\<lparr>attrLog := attrLog s @ (extra @ extra')\<rparr>))"
    by (simp only: run_add sum.case)
  moreover have "length (extra @ extra') = n * length (subjects s)" using len len' n' by simp
  ultimately show ?thesis using n' by (intro exI[of _ "extra @ extra'"]) simp
qed

lemma completed_again:
  assumes "armed n c s" "repeat s = Fin (of_nat (Suc r))" "r \<le> 9007199254740992"
  shows "armed n c (onStep_completed (s\<lparr>attrLog := l\<rparr>)) \<and>
         repeat (onStep_completed (s\<lparr>attrLog := l\<rparr>)) = Fin (of_nat r) \<and>
         events (onStep_completed (s\<lparr>attrLog := l\<rparr>)) = events s @ [BeforeBegin, Play]"
  using assms
  by (auto simp: armed_def subjects_ok_def onStep_completed_def reset_def play_def emit_def
      js_sub_def fl_of_nat Let_def split: option.splits)

lemma completed_end:
  assumes "armed n c s" "repeat s = Fin 0"
  shows "events (onStep_completed (s\<lparr>attrLog := l\<rparr>)) = events s @ [End] \<and>
         \<not> subscribed (onStep_completed (s\<lparr>attrLog := l\<rparr>)) \<and>
         \<not> isPlaying (onStep_completed (s\<lparr>attrLog := l\<rparr>)) \<and>
         frame (onStep_completed (s\<lparr>attrLog := l\<rparr>)) = 0"
  using assms
  by (auto simp: armed_def onStep_completed_def reset_def emit_def js_sub_def Let_def)


lemma onStep_completed_spec:
  "events (onStep_completed s) =
     events s @ (if repeat s = PInf \<or> js_gt (repeat s) (Fin 0) then [BeforeBegin, Play] else [End]) \<and>
   isPlaying (onStep_completed s) = (repeat s = PInf \<or> js_gt (repeat s) (Fin 0)) \<and>
   subscribed (onStep_completed s) = (repeat s = PInf \<or> js_gt (repeat s) (Fin 0)) \<and>
   repeat (onStep_completed s) = (if repeat s = PInf then PInf else js_sub (repeat s) (Fin 1)) \<and>
   frame (onStep_completed s) = 0 \<and> currentDelay (onStep_completed s) = delay s"
  by (simp add: onStep_completed_def reset_def play_def emit_def Let_def split: option.splits)

lemma run_within_cycle:
  assumes a: "armed n c s" and m: "m < c + n"
  shows "thrown (run tween_at s f0 m) = None \<and>
         events (result_anim (run tween_at s f0 m)) = events s \<and>
         frame (result_anim (run tween_at s f0 m)) = of_nat (m - c) \<and>
         length (attrLog (result_anim (run tween_at s f0 m))) =
           length (attrLog s) + (m - c) * length (subjects s)"
proof (cases "m \<le> c")
  case True
  from a have "run tween_at s f0 m = Inr (s\<lparr>currentDelay := of_nat (c - m)\<rparr>)"
    using run_delay[of s c m tween_at f0] True by (simp add: armed_def)
  with True a show ?thesis by (simp add: thrown_def result_anim_def armed_def)
next
  case False
  then obtain k where k: "m = c + k" using le_Suc_ex[of c m] by auto
  with m have "k < n" by simp
  from run_cycle_within[OF a this, of tween_at f0] k
  obtain j extra pf where "run tween_at s f0 m =
       Inr (s\<lparr>currentDelay := 0, prevFrame := pf, frame := of_nat k, currentTweenIndex := j,
              attrLog := attrLog s @ extra\<rparr>)" "length extra = k * length (subjects s)" by auto
  with k show ?thesis by (simp add: thrown_def result_anim_def)
qed

lemma run_repeats:
  assumes "armed n c s" "0 < n" "repeat s = Fin (of_nat r)" "r \<le> 9007199254740992"
  shows "(\<forall>m. m < (r + 1) * (c + n) \<longrightarrow>
            thrown (run tween_at s f0 m) = None \<and>
            events (result_anim (run tween_at s f0 m)) =
              events s @ concat (replicate (m div (c + n)) [BeforeBegin, Play])) \<and>
         thrown (run tween_at s f0 ((r + 1) * (c + n))) = None \<and>
         events (result_anim (run tween_at s f0 ((r + 1) * (c + n)))) =
           events s @ concat (replicate r [BeforeBegin, Play]) @ [End] \<and>
         \<not> subscribed (result_anim (run tween_at s f0 ((r + 1) * (c + n))))"
  using assms
proof (induction r arbitrary: s f0)
  case 0
  from run_cycle_complete[OF 0(1,2), of tween_at f0]
  obtain extra where "run tween_at s f0 (c + n) = Inr (onStep_completed (s\<lparr>attrLog := attrLog s @ extra\<rparr>))"
    by blast
  with completed_end[OF 0(1), of "attrLog s @ extra"] 0(3) run_within_cycle[OF 0(1), of _ tween_at f0]
  show ?case by (simp add: thrown_def result_anim_def)
next
  case (Suc r)
  from run_cycle_complete[OF Suc.prems(1,2), of tween_at f0]
  obtain extra where cyc: "run tween_at s f0 (c + n) = Inr (onStep_completed (s\<lparr>attrLog := attrLog s @ extra\<rparr>))"
    by blast
  let ?s' = "onStep_completed (s\<lparr>attrLog := attrLog s @ extra\<rparr>)"
  from Suc.prems(4) have rb: "r \<le> 9007199254740992" by simp
  from completed_again[OF Suc.prems(1,3) rb, of "attrLog s @ extra"]
  have a': "armed n c ?s'" and r': "repeat ?s' = Fin (of_nat r)"
    and e': "events ?s' = events s @ [BeforeBegin, Play]" by simp_all
  note IH = Suc.IH[OF a' Suc.prems(2) r' rb, of "f0 + of_nat (c + n)"]
  have split: "run tween_at s f0 (c + n + m') = run tween_at ?s' (f0 + of_nat (c + n)) m'" for m'
    using cyc by (simp only: run_add sum.case)
  have pos: "0 < c + n" using Suc.prems(2) by simp
  have first: "thrown (run tween_at s f0 m) = None \<and>
            events (result_anim (run tween_at s f0 m)) =
              events s @ concat (replicate (m div (c + n)) [BeforeBegin, Play])"
    if m: "m < (Suc r + 1) * (c + n)" for m
  proof (cases "m < c + n")
    case True
    with run_within_cycle[OF Suc.prems(1) True, of tween_at f0] show ?thesis by simp
  next
    case False
    then obtain m' where m': "m = c + n + m'" using le_Suc_ex[of "c + n" m] by auto
    with m have lt: "m' < (r + 1) * (c + n)" by simp
    from m' pos have dv: "m div (c + n) = Suc (m' div (c + n))" by simp
    from IH lt have "thrown (run tween_at ?s' (f0 + of_nat (c + n)) m') = None \<and>
            events (result_anim (run tween_at ?s' (f0 + of_nat (c + n)) m')) =
              events ?s' @ concat (replicate (m' div (c + n)) [BeforeBegin, Play])" by blast
    then show ?thesis unfolding m' split dv[unfolded m'] e' by simp
  qed
  have total: "(Suc r + 1) * (c + n) = c + n + (r + 1) * (c + n)" by simp
  from IH have "thrown (run tween_at ?s' (f0 + of_nat (c + n)) ((r + 1) * (c + n))) = None \<and>
         events (result_anim (run tween_at ?s' (f0 + of_nat (c + n)) ((r + 1) * (c + n)))) =
           events ?s' @ concat (replicate r [BeforeBegin, Play]) @ [End] \<and>
         \<not> subscribed (result_anim (run tween_at ?s' (f0 + of_nat (c + n)) ((r + 1) * (c + n))))"
    by blast
  then have last: "thrown (run tween_at s f0 ((Suc r + 1) * (c + n))) = None \<and>
         events (result_anim (run tween_at s f0 ((Suc r + 1) * (c + n)))) =
           events s @ concat (replicate (Suc r) [BeforeBegin, Play]) @ [End] \<and>
         \<not> subscribed (result_anim (run tween_at s f0 ((Suc r + 1) * (c + n))))"
    unfolding total split e' by simp
  from first last show ?case by blast
qed


lemma run_unsubscribed: "\<not> subscribed s \<Longrightarrow> run tween_at s f0 m = Inr s"
  by (induction m arbitrary: f0) (simp_all add: clock_signal_def)

subsection \<open>The animation the constructor returns\<close>

lemma createTweens_loop_length:
  "length (createTweens_loop dur kfs tot prev ks) = length (nonzero_keys ks)"
  by (induction ks arbitrary: tot prev) (simp_all add: nonzero_keys_def Let_def)

lemma createTweens_length:
  "length (createTweens s init) = length (nonzero_keys (keys s))"
  by (simp add: createTweens_def createTweens_loop_length)

lemma fillInProperty_frame:
  "result_anim (fillInProperty tween_at s init i p) =
     s\<lparr>keyframes := keyframes (result_anim (fillInProperty tween_at s init i p))\<rparr>"
  unfolding fillInProperty_def Let_def result_anim_def by (simp split: option.splits)

lemma fill_props_frame:
  "result_anim (fill_props tween_at s init i ps) =
     s\<lparr>keyframes := keyframes (result_anim (fill_props tween_at s init i ps))\<rparr>"
proof (induction ps arbitrary: s)
  case Nil
  then show ?case by (simp add: result_anim_def)
next
  case (Cons p ps)
  show ?case
  proof (cases "fillInProperty tween_at s init i p")
    case (Inl e)
    with fillInProperty_frame[of tween_at s init i p] show ?thesis
      by (cases e) (simp add: result_anim_def)
  next
    case (Inr s1)
    with fillInProperty_frame[of tween_at s init i p]
    have s1: "s1 = s\<lparr>keyframes := keyframes s1\<rparr>" by (simp add: result_anim_def)
    from Cons[of s1] Inr
    have "result_anim (fill_props tween_at s init i (p # ps)) =
       s1\<lparr>keyframes := keyframes (result_anim (fill_props tween_at s init i (p # ps)))\<rparr>" by simp
    then show ?thesis by (subst (asm) s1) simp
  qed
qed

lemma fill_frames_frame:
  "result_anim (fill_frames tween_at s init ps is) =
     s\<lparr>keyframes := keyframes (result_anim (fill_frames tween_at s init ps is))\<rparr>"
proof (induction "is" arbitrary: s)
  case Nil
  then show ?case by (simp add: result_anim_def)
next
  case (Cons i "is")
  show ?case
  proof (cases "fill_props tween_at s init i ps")
    case (Inl e)
    with fill_props_frame[of tween_at s init i ps] show ?thesis
      by (cases e) (simp add: result_anim_def)
  next
    case (Inr s1)
    with fill_props_frame[of tween_at s init i ps]
    have s1: "s1 = s\<lparr>keyframes := keyframes s1\<rparr>" by (simp add: result_anim_def)
    from Cons[of s1] Inr
    have "result_anim (fill_frames tween_at s init ps (i # is)) =
       s1\<lparr>keyframes := keyframes (result_anim (fill_frames tween_at s init ps (i # is)))\<rparr>" by simp
    then show ?thesis by (subst (asm) s1) simp
  qed
qed

lemma fillInProperties_frame:
  "result_anim (fillInProperties tween_at s init) =
     s\<lparr>keyframes := keyframes (result_anim (fillInProperties tween_at s init))\<rparr>"
  unfolding fillInProperties_def by (rule fill_frames_frame)

text \<open>What \<open>addSubject\<close> changes: the keyframes (through the gap-filler) and the bindings.\<close>

lemma addSubject_Inr:
  assumes "addSubject tween_at s subj snapshot = Inr s'"
  shows "\<exists>kfs tws. s' = s\<lparr>keyframes := kfs,
             subjects := subjects s @ [\<lparr>subject = subj, tweens = tws\<rparr>]\<rparr> \<and>
           length tws = length (nonzero_keys (keys s))"
proof (cases "subjects s = []")
  case True
  let ?init = "mixin snapshot (map_of (keyframes s) 0)"
  from assms True obtain s1 where f: "fillInProperties tween_at s ?init = Inr s1"
    and s': "s' = s1\<lparr>subjects := subjects s1 @ [\<lparr>subject = subj, tweens = createTweens s1 ?init\<rparr>]\<rparr>"
    by (auto simp: addSubject_def Let_def split: sum.splits)
  from fillInProperties_frame[of tween_at s ?init] f
  have s1: "s1 = s\<lparr>keyframes := keyframes s1\<rparr>" by (simp add: result_anim_def)
  then have "keys s1 = keys s" "subjects s1 = subjects s"
    by (metis anim.select_convs anim.surjective anim.update_convs(2))+
  with s' s1 createTweens_length[of s1 ?init] show ?thesis
    by (intro exI[of _ "keyframes s1"] exI[of _ "createTweens s1 ?init"]) (metis anim.update_convs(2,4) anim.surjective anim.select_convs)
next
  case False
  with assms have "s' = s\<lparr>subjects := subjects s @
     [\<lparr>subject = subj, tweens = createTweens s (mixin snapshot (map_of (keyframes s) 0))\<rparr>]\<rparr>"
    by (auto simp: addSubject_def Let_def)
  with createTweens_length show ?thesis
    by (intro exI[of _ "keyframes s"] exI[of _ "createTweens s (mixin snapshot (map_of (keyframes s) 0))"]) simp
qed


lemma addSubjects_Inr:
  "addSubjects tween_at s subs = Inr s' \<Longrightarrow>
     \<exists>kfs bs. s' = s\<lparr>keyframes := kfs, subjects := subjects s @ bs\<rparr> \<and>
       length bs = length subs \<and>
       list_all (\<lambda>b. length (tweens b) = length (nonzero_keys (keys s))) bs"
proof (induction subs arbitrary: s)
  case Nil
  then show ?case by (intro exI[of _ "keyframes s"] exI[of _ "[]"]) simp
next
  case (Cons sub subs)
  obtain subj snapshot where sub: "sub = (subj, snapshot)" by (cases sub)
  with Cons.prems obtain s1 where 1: "addSubject tween_at s subj snapshot = Inr s1"
    and 2: "addSubjects tween_at s1 subs = Inr s'"
    by (auto split: sum.splits)
  from addSubject_Inr[OF 1] obtain kfs tws where
    s1: "s1 = s\<lparr>keyframes := kfs, subjects := subjects s @ [\<lparr>subject = subj, tweens = tws\<rparr>]\<rparr>"
    and len: "length tws = length (nonzero_keys (keys s))" by blast
  from Cons.IH[OF 2] obtain kfs' bs where
    s': "s' = s1\<lparr>keyframes := kfs', subjects := subjects s1 @ bs\<rparr>"
    and lb: "length bs = length subs"
    and all: "list_all (\<lambda>b. length (tweens b) = length (nonzero_keys (keys s1))) bs" by blast
  from s1 have k: "keys s1 = keys s" by simp
  from s' s1 have "s' = s\<lparr>keyframes := kfs',
      subjects := subjects s @ (\<lparr>subject = subj, tweens = tws\<rparr> # bs)\<rparr>" by simp
  moreover from lb have "length (\<lparr>subject = subj, tweens = tws\<rparr> # bs) = length (sub # subs)"
    by simp
  moreover from all len k
  have "list_all (\<lambda>b. length (tweens b) = length (nonzero_keys (keys s)))
          (\<lparr>subject = subj, tweens = tws\<rparr> # bs)" by simp
  ultimately show ?case by blast
qed

text \<open>
  The animation the constructor returns: its keys are sorted, every bound subject has
  one segment per non-zero key, and the playback state is the initial one.
\<close>

lemma constructed:
  assumes "KeyframeAnimation tween_at clk dur decl opts = Inr s"
  shows "sorted (keys s) \<and>
         length (subjects s) = length (opt_subjects opts) \<and>
         list_all (\<lambda>b. length (tweens b) = length (nonzero_keys (keys s))) (subjects s) \<and>
         frame s = 0 \<and> prevFrame s = 0 \<and> currentDelay s = delay s \<and>
         currentTweenIndex s = 0 \<and> \<not> isPlaying s \<and> \<not> subscribed s \<and>
         events s = [] \<and> attrLog s = []"
proof -
  define d where "d = (case to_jsnum dur of Fin a \<Rightarrow> if a \<noteq> 0 then a else clk dur | _ \<Rightarrow> clk dur)"
  obtain clean dur' where c: "convertKeysToFrames clk d decl = (clean, dur')"
    by (cases "convertKeysToFrames clk d decl")
  from assms c obtain s0 where s0: "addSubjects tween_at s0 (opt_subjects opts) = Inr s"
    and f: "keys s0 = sort (map fst clean)" "subjects s0 = []" "frame s0 = 0" "prevFrame s0 = 0"
      "currentDelay s0 = delay s0" "currentTweenIndex s0 = 0" "\<not> isPlaying s0"
      "\<not> subscribed s0" "events s0 = []" "attrLog s0 = []"
    unfolding KeyframeAnimation_def Let_def d_def[symmetric] by (simp add: c)
  from addSubjects_Inr[OF s0] obtain kfs bs where
    s: "s = s0\<lparr>keyframes := kfs, subjects := subjects s0 @ bs\<rparr>"
    and lb: "length bs = length (opt_subjects opts)"
    and all: "list_all (\<lambda>b. length (tweens b) = length (nonzero_keys (keys s0))) bs" by blast
  from s f lb all show ?thesis by simp
qed

text \<open>
  \<open>play()\<close> on a constructed animation with a subject, a non-zero keyframe, a duration
  of \<open>n\<close> frames and a delay of \<open>c\<close> frames gives an animation at the start of a
  play-through.
\<close>

lemma constructed_armed:
  assumes k: "KeyframeAnimation tween_at clk dur decl opts = Inr s"
    and "duration s = JNum (of_nat n)" "delay s = of_nat c"
    and "opt_subjects opts \<noteq> []" "nonzero_keys (keys s) \<noteq> []"
  shows "armed n c (play s) \<and> events (play s) = [BeforeBegin, Play] \<and> repeat (play s) = repeat s"
proof -
  from constructed[OF k] assms(4,5) have ok: "subjects_ok s"
    by (cases "subjects s") (auto simp: subjects_ok_def list_all_iff)
  with constructed[OF k] assms(2,3) show ?thesis
    by (auto simp: armed_def subjects_ok_def play_def emit_def Let_def split: option.splits)
qed

subsection \<open>The scenarios\<close>

lemma delayed_eval:
  "delayed = Inr
     \<lparr>duration = JNum 5,
      keyframes = [(0, [(''x'', Number (Fin 0))]), (5, [(''x'', Number (Fin 100))])],
      keys = [0, 5],
      subjects = [\<lparr>subject = 1, tweens =
        [\<lparr>fromValues = [(''x'', Number (Fin 0))], toValues = [(''x'', Number (Fin 100))],
          startProgress = Fin 0, endProgress = Fin 1\<rparr>]\<rparr>],
      repeat = Fin 0, delay = 3, isTimelineBound = True, easing = None,
      prevFrame = 0, frame = 0, currentDelay = 3, currentTweenIndex = 0,
      isPlaying = False, subscribed = False, events = [], attrLog = []\<rparr>"
  by (simp add: delayed_def model_defs)

lemma repeating_eval:
  "repeating = Inr
     \<lparr>duration = JNum 5,
      keyframes = [(0, [(''x'', Number (Fin 0))]), (5, [(''x'', Number (Fin 100))])],
      keys = [0, 5],
      subjects = [\<lparr>subject = 1, tweens =
        [\<lparr>fromValues = [(''x'', Number (Fin 0))], toValues = [(''x'', Number (Fin 100))],
          startProgress = Fin 0, endProgress = Fin 1\<rparr>]\<rparr>],
      repeat = Fin 2, delay = 0, isTimelineBound = True, easing = None,
      prevFrame = 0, frame = 0, currentDelay = 0, currentTweenIndex = 0,
      isPlaying = False, subscribed = False, events = [], attrLog = []\<rparr>"
  by (simp add: repeating_def model_defs)

text \<open>
  C7. A clock signal that finds the delay counter positive decrements it by 1 and does
  nothing else. For an animation just played, of duration \<open>n > 0\<close> and delay \<open>c\<close>
  frames, under clock signals of consecutive frame numbers: the first \<open>c\<close> signals
  only count the delay down; the signal \<open>c + k\<close>, for \<open>k < n\<close>, leaves the animation at
  frame \<open>k\<close> after \<open>k\<close> steps, with nothing emitted; the signal \<open>c + n\<close> completes the
  play-through: the frame is back at 0 and \<open>end\<close> is emitted, or the animation plays
  again when a repeat is pending.
\<close>

theorem delay_then_frames:
  assumes a: "armed n c s" and n: "0 < n"
  shows "(\<forall>s' fn fin. 0 < currentDelay s' \<longrightarrow>
            onStep tween_at s' fn fin = Inr (s'\<lparr>currentDelay := currentDelay s' - 1\<rparr>)) \<and>
         (\<forall>m. m \<le> c \<longrightarrow> run tween_at s f0 m = Inr (s\<lparr>currentDelay := of_nat (c - m)\<rparr>)) \<and>
         (\<forall>m. m < c + n \<longrightarrow>
            thrown (run tween_at s f0 m) = None \<and>
            events (result_anim (run tween_at s f0 m)) = events s \<and>
            frame (result_anim (run tween_at s f0 m)) = of_nat (m - c) \<and>
            length (attrLog (result_anim (run tween_at s f0 m))) =
              length (attrLog s) + (m - c) * length (subjects s)) \<and>
         thrown (run tween_at s f0 (c + n)) = None \<and>
         frame (result_anim (run tween_at s f0 (c + n))) = 0 \<and>
         events (result_anim (run tween_at s f0 (c + n))) =
           events s @ (if repeat s = PInf \<or> js_gt (repeat s) (Fin 0)
                       then [BeforeBegin, Play] else [End])"
proof -
  have 1: "\<forall>s' fn fin. 0 < currentDelay s' \<longrightarrow>
            onStep tween_at s' fn fin = Inr (s'\<lparr>currentDelay := currentDelay s' - 1\<rparr>)"
    by (simp add: onStep_delay)
  have 2: "\<forall>m. m \<le> c \<longrightarrow> run tween_at s f0 m = Inr (s\<lparr>currentDelay := of_nat (c - m)\<rparr>)"
    using a run_delay[of s c _ tween_at f0] by (simp add: armed_def)
  have 3: "\<forall>m. m < c + n \<longrightarrow>
            thrown (run tween_at s f0 m) = None \<and>
            events (result_anim (run tween_at s f0 m)) = events s \<and>
            frame (result_anim (run tween_at s f0 m)) = of_nat (m - c) \<and>
            length (attrLog (result_anim (run tween_at s f0 m))) =
              length (attrLog s) + (m - c) * length (subjects s)"
    using run_within_cycle[OF a, of _ tween_at f0] by blast
  from run_cycle_complete[OF a n, of tween_at f0]
  obtain extra where
    "run tween_at s f0 (c + n) = Inr (onStep_completed (s\<lparr>attrLog := attrLog s @ extra\<rparr>))"
    by blast
  with onStep_completed_spec[of "s\<lparr>attrLog := attrLog s @ extra\<rparr>"]
  have 4: "thrown (run tween_at s f0 (c + n)) = None \<and>
         frame (result_anim (run tween_at s f0 (c + n))) = 0 \<and>
         events (result_anim (run tween_at s f0 (c + n))) =
           events s @ (if repeat s = PInf \<or> js_gt (repeat s) (Fin 0)
                       then [BeforeBegin, Play] else [End])"
    by (simp add: thrown_def result_anim_def)
  from 1 2 3 4 show ?thesis by blast
qed

text \<open>
  The theorem at the animation of delay 3 and duration 5, after \<open>play()\<close>: the third
  signal leaves it with the delay at 0 and the frame at 0, the seventh at frame 4, and
  the eighth emits \<open>end\<close>.
\<close>

theorem delay_then_frames_witness:
  "armed 5 3 (play (result_anim delayed)) \<and> (0::nat) < 5 \<and>
   run linear_at (play (result_anim delayed)) 1 3 =
     Inr ((play (result_anim delayed))\<lparr>currentDelay := 0\<rparr>) \<and>
   frame (play (result_anim delayed)) = 0 \<and>
   frame (result_anim (run linear_at (play (result_anim delayed)) 1 7)) = 4 \<and>
   events (result_anim (run linear_at (play (result_anim delayed)) 1 7)) = [BeforeBegin, Play] \<and>
   events (result_anim (run linear_at (play (result_anim delayed)) 1 8)) =
     [BeforeBegin, Play, End]"
proof -
  let ?s = "play (result_anim delayed)"
  have a: "armed 5 3 ?s"
    by (simp add: delayed_eval result_anim_def play_def emit_def armed_def subjects_ok_def)
  have n: "(0::nat) < 5" by simp
  have e: "events ?s = [BeforeBegin, Play]" "repeat ?s = Fin 0" "frame ?s = 0"
    by (simp_all add: delayed_eval result_anim_def play_def emit_def)
  note t = delay_then_frames[OF a n, of linear_at 1]
  from t have "\<forall>m. m \<le> 3 \<longrightarrow> run linear_at ?s 1 m = Inr (?s\<lparr>currentDelay := of_nat (3 - m)\<rparr>)"
    by (rule conjunct2[THEN conjunct1])
  then have d: "run linear_at ?s 1 3 = Inr (?s\<lparr>currentDelay := 0\<rparr>)" by simp
  from t have "\<forall>m. m < 3 + 5 \<longrightarrow>
            thrown (run linear_at ?s 1 m) = None \<and>
            events (result_anim (run linear_at ?s 1 m)) = events ?s \<and>
            frame (result_anim (run linear_at ?s 1 m)) = of_nat (m - 3) \<and>
            length (attrLog (result_anim (run linear_at ?s 1 m))) =
              length (attrLog ?s) + (m - 3) * length (subjects ?s)"
    by (rule conjunct2[THEN conjunct2, THEN conjunct1])
  then have "events (result_anim (run linear_at ?s 1 7)) = events ?s \<and>
            frame (result_anim (run linear_at ?s 1 7)) = of_nat (7 - 3)"
    by simp
  then have f: "frame (result_anim (run linear_at ?s 1 7)) = 4"
    "events (result_anim (run linear_at ?s 1 7)) = [BeforeBegin, Play]" using e by simp_all
  from t have "events (result_anim (run linear_at ?s 1 (3 + 5))) =
           events ?s @ (if repeat ?s = PInf \<or> js_gt (repeat ?s) (Fin 0)
                       then [BeforeBegin, Play] else [End])"
    by (rule conjunct2[THEN conjunct2, THEN conjunct2, THEN conjunct2, THEN conjunct2])
  then have l: "events (result_anim (run linear_at ?s 1 8)) = [BeforeBegin, Play, End]"
    using e by simp
  from a n d e f l show ?thesis by simp
qed

lemma widened_eval:
  "widened = Inr
     \<lparr>duration = JStr ''10'',
      keyframes = [(0, [(''x'', Number (Fin 0))]), (10, [(''x'', Number (Fin 100))])],
      keys = [0, 10],
      subjects = [\<lparr>subject = 1, tweens =
        [\<lparr>fromValues = [(''x'', Number (Fin 0))], toValues = [(''x'', Number (Fin 100))],
          startProgress = Fin 0, endProgress = Fin 1\<rparr>]\<rparr>],
      repeat = Fin 2, delay = 0, isTimelineBound = True, easing = None,
      prevFrame = 0, frame = 0, currentDelay = 0, currentTweenIndex = 0,
      isPlaying = False, subscribed = False, events = [], attrLog = []\<rparr>"
  by (simp add: widened_def model_defs)

text \<open>
  C6 fails at \<open>new KeyframeAnimation(clock, 5, {0: {x: 0}, 10: {x: 100}}, {repeat: 2,
  subjects: a})\<close>. The label \<open>'10'\<close> exceeds the declared duration 5, so the constructor
  widens the duration, to the label itself: the string \<open>'10'\<close>. After \<open>play()\<close>, under
  clock signals of consecutive frame numbers, the frame counts up by one per signal and
  passes 10, but \<open>frame === duration\<close> compares a number with a string and is never
  true: whatever the number \<open>m\<close> of signals, no play-through has completed, the repeat
  count is still 2, the animation is still playing and no \<open>end\<close> has been emitted.
\<close>

theorem repeat_never_ends:
  "duration (result_anim widened) = JStr ''10'' \<and> repeat (result_anim widened) = Fin 2 \<and>
   thrown (run tween_at (play (result_anim widened)) f0 m) = None \<and>
   frame (result_anim (run tween_at (play (result_anim widened)) f0 m)) = of_nat m \<and>
   events (result_anim (run tween_at (play (result_anim widened)) f0 m)) = [BeforeBegin, Play] \<and>
   repeat (result_anim (run tween_at (play (result_anim widened)) f0 m)) = Fin 2 \<and>
   isPlaying (result_anim (run tween_at (play (result_anim widened)) f0 m))"
proof -
  let ?s = "play (result_anim widened)"
  have s: "subjects_ok ?s" "currentTweenIndex ?s < length (tweens (hd (subjects ?s)))"
    "currentDelay ?s = 0" "subscribed ?s" "duration ?s = JStr ''10''"
    "prevFrame ?s = 0 \<or> prevFrame ?s = f0 - 1"
    by (simp_all add: widened_eval result_anim_def play_def emit_def subjects_ok_def)
  have e: "events ?s = [BeforeBegin, Play]" "repeat ?s = Fin 2" "frame ?s = 0" "isPlaying ?s"
    by (simp_all add: widened_eval result_anim_def play_def emit_def)
  have d: "duration (result_anim widened) = JStr ''10''" "repeat (result_anim widened) = Fin 2"
    by (simp_all add: widened_eval result_anim_def)
  from run_string_duration[OF s, of tween_at m]
  obtain j extra pf where "run tween_at ?s f0 m =
       Inr (?s\<lparr>prevFrame := pf, frame := frame ?s + of_nat m, currentTweenIndex := j,
              attrLog := attrLog ?s @ extra\<rparr>)" by blast
  with e d show ?thesis by (simp add: thrown_def result_anim_def)
qed

text \<open>
  With a duration that is a number the completion block works as it reads. When a
  play-through completes, the animation plays again exactly when the repeat count is
  \<open>Infinity\<close> or positive, and emits \<open>end\<close> otherwise; a finite count is decremented
  either way. For an animation just played, of duration \<open>n > 0\<close>, delay \<open>c\<close> and
  repeat count \<open>r \<le> 2^53\<close>, under clock signals of consecutive frame numbers: a
  play-through takes \<open>c + n\<close> signals; before signal \<open>(r + 1) * (c + n)\<close> nothing but
  one restart per completed play-through is emitted; that signal, which completes
  play-through \<open>r + 1\<close>, emits \<open>end\<close> and unregisters the animation, and later
  signals change nothing.
\<close>

theorem repeat_play_throughs:
  assumes a: "armed n c s" and n: "0 < n" and r: "repeat s = Fin (of_nat r)"
    and rb: "r \<le> 9007199254740992"
  shows "(\<forall>s'. isPlaying (onStep_completed s') = (repeat s' = PInf \<or> js_gt (repeat s') (Fin 0)) \<and>
              events (onStep_completed s') = events s' @
                (if repeat s' = PInf \<or> js_gt (repeat s') (Fin 0)
                 then [BeforeBegin, Play] else [End]) \<and>
              repeat (onStep_completed s') =
                (if repeat s' = PInf then PInf else js_sub (repeat s') (Fin 1))) \<and>
         (\<forall>m. m < (r + 1) * (c + n) \<longrightarrow>
            thrown (run tween_at s f0 m) = None \<and>
            events (result_anim (run tween_at s f0 m)) =
              events s @ concat (replicate (m div (c + n)) [BeforeBegin, Play])) \<and>
         thrown (run tween_at s f0 ((r + 1) * (c + n))) = None \<and>
         events (result_anim (run tween_at s f0 ((r + 1) * (c + n)))) =
           events s @ concat (replicate r [BeforeBegin, Play]) @ [End] \<and>
         (\<forall>m. run tween_at s f0 ((r + 1) * (c + n) + m) =
               run tween_at s f0 ((r + 1) * (c + n)))"
proof -
  note rr = run_repeats[OF a n r rb, of tween_at f0]
  have 1: "\<forall>s'. isPlaying (onStep_completed s') = (repeat s' = PInf \<or> js_gt (repeat s') (Fin 0)) \<and>
              events (onStep_completed s') = events s' @
                (if repeat s' = PInf \<or> js_gt (repeat s') (Fin 0)
                 then [BeforeBegin, Play] else [End]) \<and>
              repeat (onStep_completed s') =
                (if repeat s' = PInf then PInf else js_sub (repeat s') (Fin 1))"
    using onStep_completed_spec by blast
  let ?e = "run tween_at s f0 ((r + 1) * (c + n))"
  from rr have th: "thrown ?e = None" and un: "\<not> subscribed (result_anim ?e)" by blast+
  from th obtain s' where s': "?e = Inr s'"
    by (cases ?e) (auto simp: thrown_def)
  with un have "\<not> subscribed s'" by (simp add: result_anim_def)
  then have 5: "\<forall>m. run tween_at s f0 ((r + 1) * (c + n) + m) = ?e"
    using s' by (simp only: run_add sum.case run_unsubscribed simp_thms)
  from 1 rr 5 show ?thesis by blast
qed

text \<open>
  The theorem at the animation of duration 5 and repeat 2, after \<open>play()\<close>: three
  play-throughs, \<open>end\<close> on signal 15; and at the animation of duration 10 and repeat
  0: \<open>end\<close> on signal 10.
\<close>

theorem repeat_play_throughs_witness:
  "armed 5 0 (play (result_anim repeating)) \<and> repeat (play (result_anim repeating)) = Fin 2 \<and>
   events (result_anim (run linear_at (play (result_anim repeating)) 1 14)) =
     [BeforeBegin, Play, BeforeBegin, Play, BeforeBegin, Play] \<and>
   events (result_anim (run linear_at (play (result_anim repeating)) 1 15)) =
     [BeforeBegin, Play, BeforeBegin, Play, BeforeBegin, Play, End] \<and>
   armed 10 0 (play (result_anim three_keyframes)) \<and>
   repeat (play (result_anim three_keyframes)) = Fin 0 \<and>
   events (result_anim (run linear_at (play (result_anim three_keyframes)) 1 9)) =
     [BeforeBegin, Play] \<and>
   events (result_anim (run linear_at (play (result_anim three_keyframes)) 1 10)) =
     [BeforeBegin, Play, End]"
proof -
  let ?s = "play (result_anim repeating)"
  let ?u = "play (result_anim three_keyframes)"
  have a: "armed 5 0 ?s"
    by (simp add: repeating_eval result_anim_def play_def emit_def armed_def subjects_ok_def)
  have r: "repeat ?s = Fin (of_nat 2)" and e: "events ?s = [BeforeBegin, Play]"
    by (simp_all add: repeating_eval result_anim_def play_def emit_def)
  have b: "armed 10 0 ?u"
    by (simp add: three_keyframes_eval result_anim_def play_def emit_def armed_def
        subjects_ok_def)
  have q: "repeat ?u = Fin (of_nat 0)" and g: "events ?u = [BeforeBegin, Play]"
    by (simp_all add: three_keyframes_eval result_anim_def play_def emit_def)
  have n5: "(0::nat) < 5" and n10: "(0::nat) < 10" by simp_all
  have r2: "(2::nat) \<le> 9007199254740992" and r0: "(0::nat) \<le> 9007199254740992" by simp_all
  note t = repeat_play_throughs[OF a n5 r r2, of linear_at 1, THEN conjunct2]
  note v = repeat_play_throughs[OF b n10 q r0, of linear_at 1, THEN conjunct2]
  have c2: "concat (replicate 2 [BeforeBegin, Play]) = [BeforeBegin, Play, BeforeBegin, Play]"
    by (simp add: numeral_2_eq_2)
  from t have "(14::nat) < (2 + 1) * (0 + 5) \<longrightarrow>
      thrown (run linear_at ?s 1 14) = None \<and>
      events (result_anim (run linear_at ?s 1 14)) =
        events ?s @ concat (replicate (14 div (0 + 5)) [BeforeBegin, Play])"
    by (rule conjunct1[THEN spec])
  then have t1: "events (result_anim (run linear_at ?s 1 14)) =
     [BeforeBegin, Play, BeforeBegin, Play, BeforeBegin, Play]" using e c2 by simp
  from t have "events (result_anim (run linear_at ?s 1 ((2 + 1) * (0 + 5)))) =
           events ?s @ concat (replicate 2 [BeforeBegin, Play]) @ [End]"
    by (rule conjunct2[THEN conjunct2, THEN conjunct1])
  then have t2: "events (result_anim (run linear_at ?s 1 15)) =
     [BeforeBegin, Play, BeforeBegin, Play, BeforeBegin, Play, End]" using e c2 by simp
  from v have "(9::nat) < (0 + 1) * (0 + 10) \<longrightarrow>
      thrown (run linear_at ?u 1 9) = None \<and>
      events (result_anim (run linear_at ?u 1 9)) =
        events ?u @ concat (replicate (9 div (0 + 10)) [BeforeBegin, Play])"
    by (rule conjunct1[THEN spec])
  then have v1: "events (result_anim (run linear_at ?u 1 9)) = [BeforeBegin, Play]"
    using g by simp
  from v have "events (result_anim (run linear_at ?u 1 ((0 + 1) * (0 + 10)))) =
           events ?u @ concat (replicate 0 [BeforeBegin, Play]) @ [End]"
    by (rule conjunct2[THEN conjunct2, THEN conjunct1])
  then have v2: "events (result_anim (run linear_at ?u 1 10)) = [BeforeBegin, Play, End]"
    using g by simp
  from a r t1 t2 b q v1 v2 show ?thesis by simp
qed

end
